theory Spec2Isabelle
  imports Main "HOL-Library.Multiset"
begin

section \<open>Text\<close>

text \<open>
  A Python \<open>str\<close> is a sequence of Unicode code points: the list of their numbers.
  \<open>ascii\<close> writes the \<open>str\<close> of an ASCII text.
\<close>

type_synonym str = "nat list"

definition ascii :: "string \<Rightarrow> str" where
  "ascii s = map of_char s"

text \<open>
  Two library functions are parameters of everything that calls them, since their tables
  are Unicode's and not the program's: \<open>lower :: str \<Rightarrow> str\<close> is \<open>str.lower()\<close>, and
  \<open>isspace :: nat \<Rightarrow> bool\<close> is the test by which \<open>str.strip()\<close> decides what to remove
  at the two ends.
\<close>

definition strip :: "(nat \<Rightarrow> bool) \<Rightarrow> str \<Rightarrow> str" where
  "strip isspace s = rev (dropWhile isspace (rev (dropWhile isspace s)))"

text \<open>
  The values of the two parameters that the examples use. \<open>unicode_isspace\<close> is the
  whitespace of \<open>str.strip()\<close>, all of it. \<open>ascii_lower\<close> is \<open>str.lower()\<close> on a
  text that is ASCII; the examples lower-case nothing else.
\<close>

definition unicode_isspace :: "nat \<Rightarrow> bool" where
  "unicode_isspace c =
     (c \<in> set [9, 10, 11, 12, 13, 28, 29, 30, 31, 32, 133, 160, 5760, 8192, 8193, 8194, 8195,
               8196, 8197, 8198, 8199, 8200, 8201, 8202, 8232, 8233, 8239, 8287, 12288])"

definition ascii_lower :: "str \<Rightarrow> str" where
  "ascii_lower s = map (\<lambda>c. if 65 \<le> c \<and> c \<le> 90 then c + 32 else c) s"

text \<open>\<open>s.startswith(p)\<close>.\<close>

fun startswith :: "str \<Rightarrow> str \<Rightarrow> bool" where
  "startswith s [] = True"
| "startswith [] (p # ps) = False"
| "startswith (c # cs) (p # ps) = (c = p \<and> startswith cs ps)"

text \<open>\<open>w in t\<close> on two strings: \<open>w\<close> occurs in \<open>t\<close> as a contiguous run.\<close>

fun str_in :: "str \<Rightarrow> str \<Rightarrow> bool" where
  "str_in w [] = (w = [])"
| "str_in w (c # cs) = (startswith (c # cs) w \<or> str_in w cs)"

text \<open>\<open>s.split('\n')\<close>: the pieces between line feeds; never the empty list.\<close>

fun split_lines :: "str \<Rightarrow> str list" where
  "split_lines [] = [[]]"
| "split_lines (c # cs) =
     (if c = 10 then [] # split_lines cs
      else (case split_lines cs of
              [] \<Rightarrow> [[c]]
            | l # ls \<Rightarrow> (c # l) # ls))"

section \<open>The keyword lists\<close>

text \<open>
  \<open>load_filter_words\<close> and \<open>load_must_words\<close> read \<open>frequency_words.txt\<close>. The
  characters \<open>!\<close>, \<open>+\<close> and the line feed are the code points 33, 43 and 10. The
  argument is the text of the file, or \<open>None\<close> when opening or reading it raises (the
  bare \<open>except\<close> of the source then returns the empty list).
\<close>

fun collect_prefixed :: "(nat \<Rightarrow> bool) \<Rightarrow> nat \<Rightarrow> str list \<Rightarrow> str list \<Rightarrow> str list" where
  "collect_prefixed isspace p [] words = words"
| "collect_prefixed isspace p (line # rest) words =
     (let line = strip isspace line in
      if startswith line [p] then collect_prefixed isspace p rest (words @ [drop 1 line])
      else collect_prefixed isspace p rest words)"

definition load_filter_words :: "(nat \<Rightarrow> bool) \<Rightarrow> str option \<Rightarrow> str list" where
  "load_filter_words isspace file =
     (case file of
        None \<Rightarrow> []
      | Some text \<Rightarrow> (let content = strip isspace text in collect_prefixed isspace 33 (split_lines content) []))"

definition load_must_words :: "(nat \<Rightarrow> bool) \<Rightarrow> str option \<Rightarrow> str list" where
  "load_must_words isspace file =
     (case file of
        None \<Rightarrow> []
      | Some text \<Rightarrow> (let content = strip isspace text in collect_prefixed isspace 43 (split_lines content) []))"

section \<open>Headlines and the analyzer\<close>

text \<open>
  An element of \<open>all_data\<close>, as \<open>fetch_platform_data\<close> and \<open>collect_all_data\<close>
  build it (every key present; \<open>raw_data\<close>, which nothing reads, is left out).
\<close>

record item =
  title :: str
  url :: str
  rank :: int
  platform_id :: str
  timestamp :: str
  platform_name :: str

text \<open>The dictionary appended to a keyword's list in \<open>analyze_data\<close>.\<close>

record match_entry =
  m_title :: str
  m_platform :: str
  m_rank :: int
  m_url :: str
  m_timestamp :: str
  all_matched_keywords :: "str list"

record config_summary =
  frequency_words_count :: nat
  filter_words_count :: nat
  must_words_count :: nat
  platforms_count :: nat

text \<open>
  The dictionary returned by \<open>analyze_data\<close>. A Python \<open>dict\<close> keeps its keys in
  insertion order, and that order is read by \<open>sorted\<close>: dictionaries are association
  lists with distinct keys, in insertion order.
\<close>

record analysis =
  total_items :: nat
  matched_count :: nat
  filtered_count :: nat
  platform_stats :: "(str \<times> nat) list"
  keyword_matches :: "(str \<times> match_entry list) list"
  keyword_popularity :: "(str \<times> nat) list"
  sorted_keywords :: "(str \<times> nat) list"
  analysis_time :: str
  summary :: config_summary

text \<open>The fields of \<open>TrendAnalyzer\<close> that classification and aggregation read or write.\<close>

record analyzer =
  frequency_words :: "str list"
  filter_words :: "str list"
  must_words :: "str list"
  all_data :: "item list"
  analysis_result :: "analysis option"

section \<open>Classification: \<open>match_keywords\<close>\<close>

fun filter_hit :: "(str \<Rightarrow> str) \<Rightarrow> str list \<Rightarrow> str \<Rightarrow> bool" where
  "filter_hit lower [] title_lower = False"
| "filter_hit lower (filter_word # rest) title_lower =
     (if str_in (lower filter_word) title_lower then True else filter_hit lower rest title_lower)"

fun must_match_count :: "(str \<Rightarrow> str) \<Rightarrow> str list \<Rightarrow> str \<Rightarrow> nat" where
  "must_match_count lower [] title_lower = 0"
| "must_match_count lower (must_word # rest) title_lower =
     (if str_in (lower must_word) title_lower then must_match_count lower rest title_lower + 1
      else must_match_count lower rest title_lower)"

fun matched_words :: "(str \<Rightarrow> str) \<Rightarrow> str list \<Rightarrow> str \<Rightarrow> str list" where
  "matched_words lower [] title_lower = []"
| "matched_words lower (word # rest) title_lower =
     (if str_in (lower word) title_lower then word # matched_words lower rest title_lower
      else matched_words lower rest title_lower)"

definition match_keywords :: "(str \<Rightarrow> str) \<Rightarrow> analyzer \<Rightarrow> str \<Rightarrow> str list \<times> bool" where
  "match_keywords lower self ttl =
     (if ttl = [] then ([], False)
      else let title_lower = lower ttl in
        if filter_hit lower (filter_words self) title_lower then ([], True)
        else if must_words self \<noteq> [] \<and>
                must_match_count lower (must_words self) title_lower < length (must_words self)
          then ([], False)
        else (matched_words lower (frequency_words self) title_lower, False))"

section \<open>Aggregation: \<open>analyze_data\<close>\<close>

text \<open>
  \<open>Counter(...)\<close> over the platform names: one more for a key that is there, a new
  key at the end otherwise.
\<close>

fun count_key :: "str \<Rightarrow> (str \<times> nat) list \<Rightarrow> (str \<times> nat) list" where
  "count_key k [] = [(k, 1)]"
| "count_key k ((k', n) # rest) =
     (if k' = k then (k', n + 1) # rest else (k', n) # count_key k rest)"

definition counter :: "str list \<Rightarrow> (str \<times> nat) list" where
  "counter ks = foldl (\<lambda>acc k. count_key k acc) [] ks"

text \<open>
  \<open>keyword_matches[primary_keyword].append(entry)\<close> on a \<open>defaultdict(list)\<close>: the
  entry goes to the end of the list of a key that is there; a missing key is created at
  the end of the dictionary.
\<close>

fun append_match :: "str \<Rightarrow> match_entry \<Rightarrow> (str \<times> match_entry list) list
    \<Rightarrow> (str \<times> match_entry list) list" where
  "append_match k e [] = [(k, [e])]"
| "append_match k e ((k', es) # rest) =
     (if k' = k then (k', es @ [e]) # rest else (k', es) # append_match k e rest)"

text \<open>The three variables that the loop over \<open>all_data\<close> updates.\<close>

record loop_state =
  ls_keyword_matches :: "(str \<times> match_entry list) list"
  ls_filtered_count :: nat
  ls_matched_count :: nat

definition loop_body :: "(str \<Rightarrow> str) \<Rightarrow> analyzer \<Rightarrow> loop_state \<Rightarrow> item \<Rightarrow> loop_state" where
  "loop_body lower self st it =
     (let ttl = title it;
          (matched_keywords, is_filtered) = match_keywords lower self ttl
      in if is_filtered then st\<lparr>ls_filtered_count := ls_filtered_count st + 1\<rparr>
         else (case matched_keywords of
                 [] \<Rightarrow> st
               | primary_keyword # _ \<Rightarrow>
                   st\<lparr>ls_matched_count := ls_matched_count st + 1,
                      ls_keyword_matches :=
                        append_match primary_keyword
                          \<lparr>m_title = ttl, m_platform = platform_name it, m_rank = rank it,
                           m_url = url it, m_timestamp = timestamp it,
                           all_matched_keywords = matched_keywords\<rparr>
                          (ls_keyword_matches st)\<rparr>))"

fun loop :: "(str \<Rightarrow> str) \<Rightarrow> analyzer \<Rightarrow> loop_state \<Rightarrow> item list \<Rightarrow> loop_state" where
  "loop lower self st [] = st"
| "loop lower self st (it # rest) = loop lower self (loop_body lower self st it) rest"

text \<open>
  The dictionary that the loop appends for a headline with a match: the fields of the
  headline and the list that \<open>match_keywords\<close> returned for its title.
\<close>

definition match_entry_of :: "(str \<Rightarrow> str) \<Rightarrow> analyzer \<Rightarrow> item \<Rightarrow> match_entry" where
  "match_entry_of lower self it =
     \<lparr>m_title = title it, m_platform = platform_name it, m_rank = rank it,
      m_url = url it, m_timestamp = timestamp it,
      all_matched_keywords = fst (match_keywords lower self (title it))\<rparr>"

text \<open>
  The keys under which the loop files the headlines of a list, in the order of the
  headlines: \<open>matched_keywords[0]\<close> of each headline that is not filtered and has a
  match.
\<close>

fun primary_keywords :: "(str \<Rightarrow> str) \<Rightarrow> analyzer \<Rightarrow> item list \<Rightarrow> str list" where
  "primary_keywords lower self [] = []"
| "primary_keywords lower self (it # rest) =
     (case match_keywords lower self (title it) of
        (primary_keyword # _, False) \<Rightarrow> primary_keyword # primary_keywords lower self rest
      | _ \<Rightarrow> primary_keywords lower self rest)"

text \<open>
  \<open>sorted(xs, key=f, reverse=True)\<close>: Python's sort is stable, and with \<open>reverse=True\<close>
  it still keeps elements of equal key in their original order. That is the stable sort
  by the negated key.
\<close>

definition sorted_reverse :: "('a \<Rightarrow> int) \<Rightarrow> 'a list \<Rightarrow> 'a list" where
  "sorted_reverse f xs = sort_key (\<lambda>x. - f x) xs"

text \<open>\<open>len(PLATFORMS)\<close>: the module's table has eleven entries.\<close>

definition PLATFORMS_len :: nat where
  "PLATFORMS_len = 11"

text \<open>
  \<open>analyze_data\<close>, with the reading of \<open>datetime.now()\<close>, formatted, as the argument
  \<open>now_text\<close>. The method reads \<open>self\<close> and writes none of its fields.
\<close>

definition analyze_data :: "(str \<Rightarrow> str) \<Rightarrow> analyzer \<Rightarrow> str \<Rightarrow> analysis" where
  "analyze_data lower self now_text =
     (let st = loop lower self \<lparr>ls_keyword_matches = [], ls_filtered_count = 0, ls_matched_count = 0\<rparr>
                 (all_data self);
          popularity = map (\<lambda>(keyword, items). (keyword, length items)) (ls_keyword_matches st)
      in \<lparr>total_items = length (all_data self),
          matched_count = ls_matched_count st,
          filtered_count = ls_filtered_count st,
          platform_stats = counter (map platform_name (all_data self)),
          keyword_matches =
            map (\<lambda>(keyword, items). (keyword, sort_key m_rank items)) (ls_keyword_matches st),
          keyword_popularity = popularity,
          sorted_keywords = sorted_reverse (\<lambda>x. int (snd x)) popularity,
          analysis_time = now_text,
          summary = \<lparr>frequency_words_count = length (frequency_words self),
                     filter_words_count = length (filter_words self),
                     must_words_count = length (must_words self),
                     platforms_count = PLATFORMS_len\<rparr>\<rparr>)"

section \<open>The time window: \<open>calculate_time_range\<close>\<close>

text \<open>
  A naive \<open>datetime\<close> is the number of microseconds since 0001-01-01 00:00:00, the
  least value of the type; the greatest is 9999-12-31 23:59:59.999999. A \<open>timedelta\<close>
  is a number of microseconds. Subtracting a \<open>timedelta\<close> raises \<open>OverflowError\<close>
  when the result leaves that range (building a \<open>timedelta\<close> that is itself too large
  raises the same error, and no positive \<open>timedelta\<close> that large can be subtracted
  within the range).
\<close>

type_synonym datetime = int
type_synonym timedelta = int

datatype error = OverflowError

definition timedelta_days :: "int \<Rightarrow> timedelta" where
  "timedelta_days d = d * 86400000000"

definition timedelta_hours :: "int \<Rightarrow> timedelta" where
  "timedelta_hours h = h * 3600000000"

definition datetime_min :: datetime where
  "datetime_min = 0"

definition datetime_max :: datetime where
  "datetime_max = 3652059 * 86400000000 - 1"

definition datetime_sub :: "datetime \<Rightarrow> timedelta \<Rightarrow> error + datetime" where
  "datetime_sub t d =
     (if datetime_min \<le> t - d \<and> t - d \<le> datetime_max then Inr (t - d) else Inl OverflowError)"

text \<open>Midnight of the day with proleptic Gregorian ordinal \<open>n\<close> (\<open>date.toordinal()\<close>).\<close>

definition midnight_of_ordinal :: "int \<Rightarrow> datetime" where
  "midnight_of_ordinal n = timedelta_days (n - 1)"

record config =
  HISTORY_DAYS :: int
  HISTORY_HOURS :: int
  CUSTOM_START_DATE :: str
  CUSTOM_END_DATE :: str

datatype mode = custom_range | from_date | duration

text \<open>
  The dictionary that \<open>calculate_time_range\<close> returns, without \<open>description\<close> (a
  phrase for the reader built with \<open>strftime\<close>, which no decision reads).
\<close>

record time_range =
  start_date :: datetime
  end_date :: datetime
  range_mode :: mode

text \<open>The last block of the function: the window of days and hours before \<open>now\<close>.\<close>

definition duration_range :: "datetime \<Rightarrow> config \<Rightarrow> error + time_range" where
  "duration_range now cfg =
     (let total_hours = HISTORY_DAYS cfg * 24 + HISTORY_HOURS cfg;
          total_hours = (if total_hours \<le> 0 then 24 else total_hours)
      in case datetime_sub now (timedelta_hours total_hours) of
           Inl e \<Rightarrow> Inl e
         | Inr start_time \<Rightarrow>
             Inr \<lparr>start_date = start_time, end_date = now, range_mode = duration\<rparr>)"

text \<open>
  \<open>calculate_time_range\<close>. \<open>strptime s\<close> is \<open>datetime.strptime(s, '%Y-%m-%d')\<close>,
  \<open>None\<close> when it raises \<open>ValueError\<close>; \<open>now\<close> is the reading of
  \<open>datetime.now()\<close>. A \<open>ValueError\<close> in either \<open>try\<close> is caught and printed, and
  control leaves the whole \<open>if\<close>/\<open>elif\<close> statement for the block of days and hours.
  \<open>OverflowError\<close> is not a \<open>ValueError\<close>: it leaves the function.
\<close>

definition calculate_time_range ::
    "(str \<Rightarrow> datetime option) \<Rightarrow> datetime \<Rightarrow> config \<Rightarrow> error + time_range" where
  "calculate_time_range strptime now cfg =
     (if CUSTOM_START_DATE cfg \<noteq> [] \<and> CUSTOM_END_DATE cfg \<noteq> [] then
        (case strptime (CUSTOM_START_DATE cfg) of
           None \<Rightarrow> duration_range now cfg
         | Some start \<Rightarrow>
            (case strptime (CUSTOM_END_DATE cfg) of
               None \<Rightarrow> duration_range now cfg
             | Some end_parsed \<Rightarrow>
                (let end' = (if end_parsed > now then now else end_parsed)
                 in if start > end' then
                      (case datetime_sub end' (timedelta_days 1) of
                         Inl e \<Rightarrow> Inl e
                       | Inr start' \<Rightarrow>
                           Inr \<lparr>start_date = start', end_date = end', range_mode = custom_range\<rparr>)
                    else Inr \<lparr>start_date = start, end_date = end', range_mode = custom_range\<rparr>)))
      else if CUSTOM_START_DATE cfg \<noteq> [] then
        (case strptime (CUSTOM_START_DATE cfg) of
           None \<Rightarrow> duration_range now cfg
         | Some start \<Rightarrow>
            if start > now then
              (case datetime_sub now (timedelta_days 1) of
                 Inl e \<Rightarrow> Inl e
               | Inr start' \<Rightarrow> Inr \<lparr>start_date = start', end_date = now, range_mode = from_date\<rparr>)
            else Inr \<lparr>start_date = start, end_date = now, range_mode = from_date\<rparr>)
      else duration_range now cfg)"

section \<open>The objects of \<open>analyze_data\<close>\<close>

text \<open>
  A second model of \<open>analyze_data\<close>, on the objects. \<open>self.all_data\<close> is a list
  object that holds references to the dictionaries of the headlines, and every list that
  \<open>keyword_matches\<close> holds is a list object, which \<open>append\<close> and \<open>sort\<close> change in
  place. A store is the list of the objects there are; the address of an object is its
  index, and a new object goes to the end.
\<close>

type_synonym addr = nat

datatype obj = Headline item | HeadlineList "addr list" | MatchList "match_entry list"

type_synonym store = "obj list"

text \<open>The object at an address, if there is one.\<close>

definition obj_at :: "store \<Rightarrow> addr \<Rightarrow> obj option" where
  "obj_at h a = (if a < length h then Some (h ! a) else None)"

text \<open>
  The \<open>TrendAnalyzer\<close> object: \<open>all_data\<close> is a reference; the three lists of words,
  which the method only reads, are kept as values.
\<close>

record analyzer_obj =
  o_frequency_words :: "str list"
  o_filter_words :: "str list"
  o_must_words :: "str list"
  o_all_data :: addr

text \<open>
  What the store holds for the analyzer: the references in \<open>self.all_data\<close>, the
  headline behind a reference, the entries of a list of matches, and the analyzer as the
  first model has it.
\<close>

definition all_data_refs :: "store \<Rightarrow> analyzer_obj \<Rightarrow> addr list" where
  "all_data_refs h self =
     (case obj_at h (o_all_data self) of Some (HeadlineList items) \<Rightarrow> items | _ \<Rightarrow> [])"

definition headline_at :: "store \<Rightarrow> addr \<Rightarrow> item list" where
  "headline_at h i = (case obj_at h i of Some (Headline it) \<Rightarrow> [it] | _ \<Rightarrow> [])"

definition matches_at :: "store \<Rightarrow> addr \<Rightarrow> match_entry list" where
  "matches_at h a = (case obj_at h a of Some (MatchList es) \<Rightarrow> es | _ \<Rightarrow> [])"

definition view :: "store \<Rightarrow> analyzer_obj \<Rightarrow> analyzer" where
  "view h self =
     \<lparr>frequency_words = o_frequency_words self, filter_words = o_filter_words self,
      must_words = o_must_words self,
      all_data = concat (map (headline_at h) (all_data_refs h self)),
      analysis_result = None\<rparr>"

text \<open>\<open>self.all_data\<close> refers to a list, and all that it holds refers to headlines.\<close>

definition wf_store :: "store \<Rightarrow> analyzer_obj \<Rightarrow> bool" where
  "wf_store h self =
     (case obj_at h (o_all_data self) of
        Some (HeadlineList items) \<Rightarrow>
          list_all (\<lambda>i. case obj_at h i of Some (Headline it) \<Rightarrow> True | _ \<Rightarrow> False) items
      | _ \<Rightarrow> False)"

text \<open>
  The variables of the loop, with the store. \<open>keyword_matches\<close> maps a keyword to the
  address of its list.
\<close>

record store_loop_state =
  lo_store :: store
  lo_keyword_matches :: "(str \<times> addr) list"
  lo_filtered_count :: nat
  lo_matched_count :: nat

text \<open>
  \<open>keyword_matches[primary_keyword].append(entry)\<close>: a missing key gets a new list
  object, and the entry is appended to the list object of the key, in place.
\<close>

definition append_match_store ::
    "str \<Rightarrow> match_entry \<Rightarrow> (str \<times> addr) list \<Rightarrow> store \<Rightarrow> (str \<times> addr) list \<times> store" where
  "append_match_store k e km h =
     (case map_of km k of
        None \<Rightarrow> (km @ [(k, length h)], h @ [MatchList [e]])
      | Some a \<Rightarrow> (km, h[a := MatchList (matches_at h a @ [e])]))"

text \<open>The body of the loop, for the headline behind the reference \<open>i\<close>.\<close>

definition loop_body_store ::
    "(str \<Rightarrow> str) \<Rightarrow> analyzer_obj \<Rightarrow> store_loop_state \<Rightarrow> addr \<Rightarrow> store_loop_state" where
  "loop_body_store lower self st i =
     (case obj_at (lo_store st) i of
        Some (Headline it) \<Rightarrow>
          (let ttl = title it;
               (matched_keywords, is_filtered) = match_keywords lower (view (lo_store st) self) ttl
           in if is_filtered then st\<lparr>lo_filtered_count := lo_filtered_count st + 1\<rparr>
              else (case matched_keywords of
                      [] \<Rightarrow> st
                    | primary_keyword # _ \<Rightarrow>
                        (let (km, h) = append_match_store primary_keyword
                               \<lparr>m_title = ttl, m_platform = platform_name it, m_rank = rank it,
                                m_url = url it, m_timestamp = timestamp it,
                                all_matched_keywords = matched_keywords\<rparr>
                               (lo_keyword_matches st) (lo_store st)
                         in st\<lparr>lo_matched_count := lo_matched_count st + 1,
                               lo_keyword_matches := km, lo_store := h\<rparr>)))
      | _ \<Rightarrow> st)"

text \<open>
  The body leaves an object as it is or makes it a list of matches: so the list that the
  loop runs over keeps its length for as long as it is a list of headlines.
\<close>

lemma append_match_store_obj:
  assumes "append_match_store k e km h = (km', h')" and "a < length h"
  shows "obj_at h' a = obj_at h a \<or> (\<exists>es. obj_at h' a = Some (MatchList es))"
proof (cases "map_of km k")
  case None
  then have "h' = h @ [MatchList [e]]"
    using assms(1) by (simp add: append_match_store_def)
  then show ?thesis
    using assms(2) by (simp add: obj_at_def nth_append)
next
  case (Some b)
  then have "h' = h[b := MatchList (matches_at h b @ [e])]"
    using assms(1) by (simp add: append_match_store_def)
  then show ?thesis
    using assms(2) by (cases "a = b") (simp_all add: obj_at_def)
qed

lemma loop_body_store_obj:
  assumes "a < length (lo_store st)"
  shows "obj_at (lo_store (loop_body_store lower self st i)) a = obj_at (lo_store st) a \<or>
         (\<exists>es. obj_at (lo_store (loop_body_store lower self st i)) a = Some (MatchList es))"
proof -
  have "obj_at h' a = obj_at (lo_store st) a \<or> (\<exists>es. obj_at h' a = Some (MatchList es))"
    if "append_match_store k e (lo_keyword_matches st) (lo_store st) = (km', h')" for k e km' h'
    using that assms by (rule append_match_store_obj)
  then show ?thesis
    by (auto simp: loop_body_store_def Let_def
             split: option.splits obj.splits prod.splits list.splits)
qed

text \<open>
  \<open>for item in self.all_data\<close>: the iterator holds a position, and at every step it
  looks at the list object as it then is.
\<close>

function loop_store ::
    "(str \<Rightarrow> str) \<Rightarrow> analyzer_obj \<Rightarrow> store_loop_state \<Rightarrow> nat \<Rightarrow> store_loop_state" where
  "loop_store lower self st idx =
     (case obj_at (lo_store st) (o_all_data self) of
        Some (HeadlineList items) \<Rightarrow>
          if idx < length items
          then loop_store lower self (loop_body_store lower self st (items ! idx)) (idx + 1)
          else st
      | _ \<Rightarrow> st)"
  by pat_completeness auto
termination
proof (relation "measure (\<lambda>(lower, self, st, idx).
    case obj_at (lo_store st) (o_all_data self) of
      Some (HeadlineList items) \<Rightarrow> length items - idx | _ \<Rightarrow> 0)", goal_cases)
  case 1
  then show ?case by simp
next
  case (2 lower self st idx x2 items)
  then have a: "o_all_data self < length (lo_store st)"
    by (simp add: obj_at_def split: if_splits)
  from loop_body_store_obj [OF a, of lower self "items ! idx"] 2
  show ?case
    by auto
qed

declare loop_store.simps [simp del]


text \<open>\<open>keyword_matches[keyword].sort(key=...)\<close> for every key: each list is sorted in place.\<close>

fun sort_groups :: "(str \<times> addr) list \<Rightarrow> store \<Rightarrow> store" where
  "sort_groups [] h = h"
| "sort_groups ((keyword, a) # rest) h =
     sort_groups rest (h[a := MatchList (sort_key m_rank (matches_at h a))])"

text \<open>
  The dictionary that \<open>analyze_data\<close> returns: \<open>keyword_matches\<close> holds the
  references to the lists.
\<close>

record analysis_obj =
  r_total_items :: nat
  r_matched_count :: nat
  r_filtered_count :: nat
  r_platform_stats :: "(str \<times> nat) list"
  r_keyword_matches :: "(str \<times> addr) list"
  r_keyword_popularity :: "(str \<times> nat) list"
  r_sorted_keywords :: "(str \<times> nat) list"
  r_analysis_time :: str
  r_summary :: config_summary

definition analyze_data_store ::
    "(str \<Rightarrow> str) \<Rightarrow> analyzer_obj \<Rightarrow> store \<Rightarrow> str \<Rightarrow> analysis_obj \<times> store" where
  "analyze_data_store lower self h now_text =
     (let total = length (all_data_refs h self);
          stats = counter (map platform_name (all_data (view h self)));
          st = loop_store lower self
                 \<lparr>lo_store = h, lo_keyword_matches = [], lo_filtered_count = 0,
                  lo_matched_count = 0\<rparr> 0;
          popularity = map (\<lambda>(keyword, a). (keyword, length (matches_at (lo_store st) a)))
                         (lo_keyword_matches st);
          sorted = sorted_reverse (\<lambda>x. int (snd x)) popularity;
          h' = sort_groups (lo_keyword_matches st) (lo_store st)
      in (\<lparr>r_total_items = total,
           r_matched_count = lo_matched_count st,
           r_filtered_count = lo_filtered_count st,
           r_platform_stats = stats,
           r_keyword_matches = lo_keyword_matches st,
           r_keyword_popularity = popularity,
           r_sorted_keywords = sorted,
           r_analysis_time = now_text,
           r_summary = \<lparr>frequency_words_count = length (o_frequency_words self),
                        filter_words_count = length (o_filter_words self),
                        must_words_count = length (o_must_words self),
                        platforms_count = PLATFORMS_len\<rparr>\<rparr>, h'))"

text \<open>What a result says in a store: its lists read out.\<close>

definition read_groups :: "store \<Rightarrow> (str \<times> addr) list \<Rightarrow> (str \<times> match_entry list) list" where
  "read_groups h km = map (\<lambda>(keyword, a). (keyword, matches_at h a)) km"

definition read_analysis :: "store \<Rightarrow> analysis_obj \<Rightarrow> analysis" where
  "read_analysis h r =
     \<lparr>total_items = r_total_items r,
      matched_count = r_matched_count r,
      filtered_count = r_filtered_count r,
      platform_stats = r_platform_stats r,
      keyword_matches = read_groups h (r_keyword_matches r),
      keyword_popularity = r_keyword_popularity r,
      sorted_keywords = r_sorted_keywords r,
      analysis_time = r_analysis_time r,
      summary = r_summary r\<rparr>"

text \<open>
  For the proofs. The lists of \<open>keyword_matches\<close> are distinct objects made after the
  first \<open>n\<close>; and a state of the loop on the store stands for a state of the loop of
  the first model, having changed none of the objects it started from.
\<close>

definition fresh_groups :: "nat \<Rightarrow> store \<Rightarrow> (str \<times> addr) list \<Rightarrow> bool" where
  "fresh_groups n h km =
     (n \<le> length h \<and> distinct (map snd km) \<and> (\<forall>a\<in>snd ` set km. n \<le> a \<and> a < length h))"

definition refines :: "store \<Rightarrow> store_loop_state \<Rightarrow> loop_state \<Rightarrow> bool" where
  "refines h0 st pst =
     (fresh_groups (length h0) (lo_store st) (lo_keyword_matches st) \<and>
      take (length h0) (lo_store st) = h0 \<and>
      read_groups (lo_store st) (lo_keyword_matches st) = ls_keyword_matches pst \<and>
      lo_filtered_count st = ls_filtered_count pst \<and>
      lo_matched_count st = ls_matched_count pst)"

section \<open>Facts about the loops\<close>

lemma str_in_empty: "str_in [] t = True"
  by (cases t) simp_all

lemma filter_hit_iff: "filter_hit lower ws tlow = (\<exists>w\<in>set ws. str_in (lower w) tlow)"
  by (induction ws) auto

lemma must_match_count_filter:
  "must_match_count lower ws tlow = length (filter (\<lambda>w. str_in (lower w) tlow) ws)"
  by (induction ws) auto

lemma must_match_count_less:
  "(must_match_count lower ws tlow < length ws) = (\<exists>w\<in>set ws. \<not> str_in (lower w) tlow)"
  unfolding must_match_count_filter
  by (metis filter_True length_filter_less linorder_not_less length_filter_le filter_id_conv)

lemma matched_words_filter:
  "matched_words lower ws tlow = filter (\<lambda>w. str_in (lower w) tlow) ws"
  by (induction ws) auto

lemma matched_words_find:
  "matched_words lower ws tlow = k # ms \<Longrightarrow> find (\<lambda>w. str_in (lower w) tlow) ws = Some k"
  by (induction ws) (auto split: if_splits)

lemma match_keywords_all_data: "match_keywords lower (self\<lparr>all_data := d\<rparr>) = match_keywords lower self"
  by (rule ext) (simp add: match_keywords_def Let_def)

lemma match_keywords_nonempty:
  assumes "fst (match_keywords lower self ttl) \<noteq> []"
  shows "match_keywords lower self ttl = (matched_words lower (frequency_words self) (lower ttl), False)"
  using assms by (auto simp: match_keywords_def Let_def split: if_splits)

lemma match_keywords_filtered_empty:
  "match_keywords lower self ttl = (ms, True) \<Longrightarrow> ms = []"
  by (auto simp: match_keywords_def Let_def split: if_splits)

lemma collect_prefixed_eq:
  "collect_prefixed isspace p ls acc =
     acc @ map (drop 1) (filter (\<lambda>l. startswith l [p]) (map (strip isspace) ls))"
  by (induction ls arbitrary: acc) (simp_all add: Let_def)

lemma startswith_single: "startswith l [p] = (\<exists>r. l = p # r)"
  by (cases l) auto

lemma collect_prefixed_mem:
  assumes "line \<in> set ls" and "strip isspace line = p # rest"
  shows "rest \<in> set (collect_prefixed isspace p ls acc)"
proof -
  have "p # rest \<in> strip isspace ` set ls"
    using assms by (metis imageI)
  then have "drop 1 (p # rest) \<in> drop 1 ` {l \<in> strip isspace ` set ls. startswith l [p]}"
    by (intro imageI) simp
  then show ?thesis
    by (simp add: collect_prefixed_eq)
qed

lemma loop_append: "loop lower self st (xs @ ys) = loop lower self (loop lower self st xs) ys"
  by (induction xs arbitrary: st) simp_all

lemma loop_body_all_data: "loop_body lower (self\<lparr>all_data := d\<rparr>) = loop_body lower self"
  by (intro ext) (simp add: loop_body_def match_keywords_all_data)

lemma loop_all_data: "loop lower (self\<lparr>all_data := d\<rparr>) st xs = loop lower self st xs"
  by (induction xs arbitrary: st) (simp_all add: loop_body_all_data)

lemma map_of_append_match:
  "map_of (append_match k e kms) k' =
     (if k' = k then Some ((case map_of kms k of None \<Rightarrow> [] | Some es \<Rightarrow> es) @ [e])
      else map_of kms k')"
  by (induction kms) auto

lemma keys_append_match:
  "map fst (append_match k e kms) =
     (if k \<in> set (map fst kms) then map fst kms else map fst kms @ [k])"
  by (induction kms) (auto simp: rev_image_eqI)

lemma primary_keywords_append:
  "primary_keywords lower self (xs @ ys) = primary_keywords lower self xs @ primary_keywords lower self ys"
  by (induction xs) (auto split: prod.splits list.splits bool.splits)

text \<open>\<open>rev (remdups (rev ks))\<close> keeps the first occurrence of every element, in order.\<close>

lemma first_seen_snoc:
  "rev (remdups (rev (ks @ [k]))) =
     (if k \<in> set (rev (remdups (rev ks))) then rev (remdups (rev ks))
      else rev (remdups (rev ks)) @ [k])"
  by simp

lemma loop_body_keys:
  assumes "primary_keywords lower self [it] = ps"
  shows "map fst (ls_keyword_matches (loop_body lower self st it)) =
     (case ps of
        [] \<Rightarrow> map fst (ls_keyword_matches st)
      | k # _ \<Rightarrow> if k \<in> set (map fst (ls_keyword_matches st)) then map fst (ls_keyword_matches st)
                 else map fst (ls_keyword_matches st) @ [k])"
  using assms
  by (cases "match_keywords lower self (title it)")
     (auto simp: loop_body_def keys_append_match dest: match_keywords_filtered_empty
           split: list.splits bool.splits)

text \<open>The keys of \<open>keyword_matches\<close> after the loop: the primary keywords, each at its
  first headline.\<close>

lemma loop_keys:
  "map fst (ls_keyword_matches
       (loop lower self \<lparr>ls_keyword_matches = [], ls_filtered_count = 0, ls_matched_count = 0\<rparr> xs)) =
     rev (remdups (rev (primary_keywords lower self xs)))"
proof (induction xs rule: rev_induct)
  case Nil
  then show ?case by simp
next
  case (snoc x xs)
  define st where "st = loop lower self
    \<lparr>ls_keyword_matches = [], ls_filtered_count = 0, ls_matched_count = 0\<rparr> xs"
  have ih: "map fst (ls_keyword_matches st) = rev (remdups (rev (primary_keywords lower self xs)))"
    unfolding st_def by (rule snoc)
  have l: "loop lower self \<lparr>ls_keyword_matches = [], ls_filtered_count = 0, ls_matched_count = 0\<rparr>
             (xs @ [x]) = loop_body lower self st x"
    by (simp add: loop_append st_def)
  show ?case
  proof (cases "primary_keywords lower self [x]")
    case Nil
    show ?thesis
      unfolding l primary_keywords_append Nil loop_body_keys [OF Nil] using ih by simp
  next
    case (Cons k ks)
    then have "ks = []"
      by (auto split: prod.splits list.splits bool.splits)
    with Cons have px: "primary_keywords lower self [x] = [k]"
      by simp
    show ?thesis
      unfolding l primary_keywords_append px first_seen_snoc loop_body_keys [OF px]
      using ih by simp
  qed
qed

text \<open>What the loop files under a key: the entries of the headlines with that primary
  keyword, in the order of the headlines.\<close>

lemma loop_body_group:
  "(case map_of (ls_keyword_matches (loop_body lower self st it)) k of None \<Rightarrow> [] | Some es \<Rightarrow> es) =
     (case map_of (ls_keyword_matches st) k of None \<Rightarrow> [] | Some es \<Rightarrow> es) @
     (if primary_keywords lower self [it] = [k] then [match_entry_of lower self it] else [])"
  by (cases "match_keywords lower self (title it)")
     (auto simp: loop_body_def map_of_append_match match_entry_of_def
           dest: match_keywords_filtered_empty split: list.splits bool.splits)

lemma loop_group:
  "(case map_of (ls_keyword_matches (loop lower self st xs)) k of None \<Rightarrow> [] | Some es \<Rightarrow> es) =
     (case map_of (ls_keyword_matches st) k of None \<Rightarrow> [] | Some es \<Rightarrow> es) @
     map (match_entry_of lower self) (filter (\<lambda>i. primary_keywords lower self [i] = [k]) xs)"
proof (induction xs arbitrary: st)
  case Nil
  then show ?case by simp
next
  case (Cons x xs)
  show ?case
    unfolding loop.simps Cons.IH loop_body_group by simp
qed

lemma map_of_sorted_groups:
  "(case map_of (map (\<lambda>(k, es). (k, sort_key g es)) kms) k of None \<Rightarrow> [] | Some es \<Rightarrow> es) =
     sort_key g (case map_of kms k of None \<Rightarrow> [] | Some es \<Rightarrow> es)"
  by (induction kms) auto

lemma analyze_data_group:
  "(case map_of (keyword_matches (analyze_data lower self now_text)) k of
      None \<Rightarrow> [] | Some es \<Rightarrow> es) =
     sort_key m_rank (map (match_entry_of lower self)
       (filter (\<lambda>i. primary_keywords lower self [i] = [k]) (all_data self)))"
  by (simp add: analyze_data_def Let_def map_of_sorted_groups loop_group)

lemma sorted_reverse_mset: "mset (sorted_reverse f xs) = mset xs"
  by (simp add: sorted_reverse_def)

lemma sorted_reverse_sorted: "sorted_wrt (\<lambda>a b. f b \<le> f a) (sorted_reverse f xs)"
proof -
  have "sorted (map (\<lambda>x. - f x) (sort_key (\<lambda>x. - f x) xs))"
    by (rule sorted_sort_key)
  then show ?thesis
    by (simp add: sorted_reverse_def sorted_map)
qed

lemma sorted_reverse_stable:
  "filter (\<lambda>x. f x = c) (sorted_reverse f xs) = filter (\<lambda>x. f x = c) xs"
  using sort_key_stable [of "\<lambda>x. - f x" "- c" xs]
  by (simp add: sorted_reverse_def)

lemma popularity_of_sorted_groups:
  "map (\<lambda>(k, es). (k, length es)) (map (\<lambda>(k, es). (k, sort_key g es)) kms) =
     map (\<lambda>(k, es). (k, length es)) kms"
  by (induction kms) auto

lemma datetime_sub_Inr: "datetime_sub t d = Inr r \<Longrightarrow> r = t - d"
  by (simp add: datetime_sub_def split: if_splits)

lemma duration_range_window:
  assumes "duration_range now cfg = Inr w"
  shows "start_date w \<le> end_date w \<and> end_date w \<le> now"
proof -
  define total_hours where
    "total_hours = (if HISTORY_DAYS cfg * 24 + HISTORY_HOURS cfg \<le> 0 then 24
                    else HISTORY_DAYS cfg * 24 + HISTORY_HOURS cfg)"
  have pos: "0 < total_hours"
    by (simp add: total_hours_def)
  have d: "duration_range now cfg =
      (case datetime_sub now (timedelta_hours total_hours) of
         Inl e \<Rightarrow> Inl e
       | Inr s \<Rightarrow> Inr \<lparr>start_date = s, end_date = now, range_mode = duration\<rparr>)"
    by (simp add: duration_range_def Let_def total_hours_def)
  from assms obtain s where s: "datetime_sub now (timedelta_hours total_hours) = Inr s"
    and w: "w = \<lparr>start_date = s, end_date = now, range_mode = duration\<rparr>"
    unfolding d by (auto split: sum.splits)
  have "s = now - timedelta_hours total_hours"
    using s by (rule datetime_sub_Inr)
  then have "s \<le> now"
    using pos by (simp add: timedelta_hours_def)
  then show ?thesis
    using w by simp
qed

text \<open>
  The loaders strip the whole text before they split it. Every line of the text that is
  not blank is still there after that, up to the whitespace around it.
\<close>

lemma split_lines_nonempty: "split_lines s \<noteq> []"
  by (induction s) (auto split: list.splits)

lemma strip_cons_space: "isspace c \<Longrightarrow> strip isspace (c # s) = strip isspace s"
  by (simp add: strip_def)

lemma strip_snoc_space:
  assumes "isspace c"
  shows "strip isspace (s @ [c]) = strip isspace s"
proof (cases "\<forall>x\<in>set s. isspace x")
  case True
  then have a: "dropWhile isspace s = []"
    by simp
  have "\<forall>x\<in>set (s @ [c]). isspace x"
    using True assms by simp
  then have b: "dropWhile isspace (s @ [c]) = []"
    by (simp only: dropWhile_eq_Nil_conv)
  show ?thesis
    unfolding strip_def a b by simp
next
  case False
  then have "dropWhile isspace (s @ [c]) = dropWhile isspace s @ [c]"
    by (auto simp: dropWhile_append1)
  then show ?thesis
    using assms by (simp add: strip_def)
qed

lemma split_lines_snoc:
  "split_lines (s @ [c]) =
     (if c = 10 then split_lines s @ [[]]
      else butlast (split_lines s) @ [last (split_lines s) @ [c]])"
proof (induction s)
  case Nil
  then show ?case by simp
next
  case (Cons a s)
  show ?case
    using split_lines_nonempty [of s] Cons
    by (cases "split_lines s") (auto split: list.splits)
qed

lemma lines_lstrip:
  assumes "l \<in> set (split_lines s)" and "strip isspace l \<noteq> []"
  shows "\<exists>l'\<in>set (split_lines (dropWhile isspace s)). strip isspace l' = strip isspace l"
  using assms
proof (induction s arbitrary: l)
  case Nil
  then show ?case by simp
next
  case (Cons c cs)
  show ?case
  proof (cases "isspace c")
    case False
    then show ?thesis
      using Cons.prems by auto
  next
    case True
    have "\<exists>l0\<in>set (split_lines cs). strip isspace l0 = strip isspace l"
    proof (cases "c = 10")
      case nl: True
      then show ?thesis
        using Cons.prems by (auto simp: strip_def)
    next
      case nnl: False
      obtain l0 ls where s: "split_lines cs = l0 # ls"
        using split_lines_nonempty [of cs] by (cases "split_lines cs") auto
      then have "l = c # l0 \<or> l \<in> set ls"
        using Cons.prems(1) nnl by simp
      then show ?thesis
        using s True by (auto simp: strip_cons_space)
    qed
    then obtain l0 where "l0 \<in> set (split_lines cs)" and "strip isspace l0 = strip isspace l"
      by blast
    then have "\<exists>l'\<in>set (split_lines (dropWhile isspace cs)). strip isspace l' = strip isspace l0"
      using Cons.IH [of l0] Cons.prems(2) by simp
    then show ?thesis
      using True \<open>strip isspace l0 = strip isspace l\<close> by simp
  qed
qed

lemma lines_rstrip:
  assumes "l \<in> set (split_lines s)" and "strip isspace l \<noteq> []"
  shows "\<exists>l'\<in>set (split_lines (rev (dropWhile isspace (rev s)))). strip isspace l' = strip isspace l"
  using assms
proof (induction s arbitrary: l rule: rev_induct)
  case Nil
  then show ?case by simp
next
  case (snoc c cs)
  show ?case
  proof (cases "isspace c")
    case False
    then show ?thesis
      using snoc.prems by auto
  next
    case True
    have "\<exists>l0\<in>set (split_lines cs). strip isspace l0 = strip isspace l"
    proof (cases "c = 10")
      case nl: True
      then show ?thesis
        using snoc.prems by (auto simp: split_lines_snoc strip_def)
    next
      case nnl: False
      have "l = last (split_lines cs) @ [c] \<or> l \<in> set (butlast (split_lines cs))"
        using snoc.prems(1) nnl by (auto simp: split_lines_snoc)
      then show ?thesis
        using True split_lines_nonempty [of cs]
        by (auto simp: strip_snoc_space dest: in_set_butlastD)
    qed
    then obtain l0 where l0: "l0 \<in> set (split_lines cs)" "strip isspace l0 = strip isspace l"
      by blast
    then have "\<exists>l'\<in>set (split_lines (rev (dropWhile isspace (rev cs)))). strip isspace l' = strip isspace l0"
      using snoc.IH [of l0] snoc.prems(2) by simp
    then show ?thesis
      using True l0 by simp
  qed
qed

lemma lines_strip:
  assumes "l \<in> set (split_lines s)" and "strip isspace l \<noteq> []"
  shows "\<exists>l'\<in>set (split_lines (strip isspace s)). strip isspace l' = strip isspace l"
proof -
  obtain l1 where 1: "l1 \<in> set (split_lines (dropWhile isspace s))" "strip isspace l1 = strip isspace l"
    using lines_lstrip [OF assms] by blast
  then have "strip isspace l1 \<noteq> []"
    using assms(2) by simp
  from lines_rstrip [OF 1(1) this] 1(2) show ?thesis
    by (simp add: strip_def [of isspace s])
qed


text \<open>When \<open>calculate_time_range\<close> returns a window: no subtraction leaves the range.\<close>

lemma duration_range_returns:
  assumes "now \<le> datetime_max"
    and "datetime_min + timedelta_hours
           (if HISTORY_DAYS cfg * 24 + HISTORY_HOURS cfg \<le> 0 then 24
            else HISTORY_DAYS cfg * 24 + HISTORY_HOURS cfg) \<le> now"
  shows "\<exists>w. duration_range now cfg = Inr w"
proof -
  define total_hours where
    "total_hours = (if HISTORY_DAYS cfg * 24 + HISTORY_HOURS cfg \<le> 0 then 24
                    else HISTORY_DAYS cfg * 24 + HISTORY_HOURS cfg)"
  have "0 < total_hours"
    by (simp add: total_hours_def)
  then have "datetime_sub now (timedelta_hours total_hours) = Inr (now - timedelta_hours total_hours)"
    using assms unfolding total_hours_def [symmetric]
    by (simp add: datetime_sub_def timedelta_hours_def)
  then show ?thesis
    by (simp add: duration_range_def Let_def total_hours_def)
qed

lemma calculate_time_range_returns:
  assumes "datetime_min + timedelta_days 1 \<le> now" and "now \<le> datetime_max"
    and "\<And>s d. strptime s = Some d \<Longrightarrow> datetime_min + timedelta_days 1 \<le> d"
    and "datetime_min + timedelta_hours
           (if HISTORY_DAYS cfg * 24 + HISTORY_HOURS cfg \<le> 0 then 24
            else HISTORY_DAYS cfg * 24 + HISTORY_HOURS cfg) \<le> now"
  shows "\<exists>w. calculate_time_range strptime now cfg = Inr w"
proof -
  have d: "\<exists>w. duration_range now cfg = Inr w"
    using assms(2,4) by (rule duration_range_returns)
  have s: "datetime_sub t (timedelta_days 1) = Inr (t - timedelta_days 1)"
    if "datetime_min + timedelta_days 1 \<le> t" and "t \<le> now" for t
    using that assms(2) by (simp add: datetime_sub_def timedelta_days_def)
  show ?thesis
    using d s [of now] assms(1) s [of "the (strptime (CUSTOM_END_DATE cfg))"] assms(3)
    by (auto simp: calculate_time_range_def Let_def split: option.splits)
qed

section \<open>Facts about the store\<close>

lemma obj_at_prefix:
  assumes "take n h' = take n h" and "a < n" and "n \<le> length h" and "n \<le> length h'"
  shows "obj_at h' a = obj_at h a"
proof -
  have "take n h' ! a = take n h ! a"
    using assms(1) by simp
  then have "h' ! a = h ! a"
    using assms(2) by simp
  then show ?thesis
    using assms(2-4) by (simp add: obj_at_def)
qed

lemma matches_at_update:
  "matches_at (h[a := MatchList es]) b =
     (if b = a \<and> a < length h then es else matches_at h b)"
  by (simp add: matches_at_def obj_at_def)

lemma matches_at_append:
  "matches_at (h @ [MatchList es]) b =
     (if b = length h then es else matches_at h b)"
  by (auto simp: matches_at_def obj_at_def nth_append)

lemma append_match_fresh_key:
  "k \<notin> fst ` set kms \<Longrightarrow> append_match k e kms = kms @ [(k, [e])]"
  by (induction kms) auto

lemma read_groups_update_other:
  "a \<notin> snd ` set km \<Longrightarrow> read_groups (h[a := x]) km = read_groups h km"
  by (induction km) (auto simp: read_groups_def matches_at_def obj_at_def)

lemma read_groups_append_store:
  "\<forall>a\<in>snd ` set km. a < length h \<Longrightarrow> read_groups (h @ [x]) km = read_groups h km"
  by (induction km) (auto simp: read_groups_def matches_at_def obj_at_def nth_append)

lemma read_groups_append_existing:
  assumes "map_of km k = Some a" and "distinct (map snd km)" and "\<forall>b\<in>snd ` set km. b < length h"
  shows "read_groups (h[a := MatchList (matches_at h a @ [e])]) km =
           append_match k e (read_groups h km)"
  using assms
proof (induction km)
  case Nil
  then show ?case by simp
next
  case (Cons p km)
  obtain k' a' where p: "p = (k', a')"
    by (cases p)
  show ?case
  proof (cases "k' = k")
    case True
    then have a: "a' = a"
      using Cons.prems(1) p by simp
    have "a \<notin> snd ` set km"
      using Cons.prems(2) p a by auto
    then have "read_groups (h[a := MatchList (matches_at h a @ [e])]) km = read_groups h km"
      by (rule read_groups_update_other)
    then show ?thesis
      using True p a Cons.prems(3)
      by (simp add: read_groups_def matches_at_update)
  next
    case False
    then have m: "map_of km k = Some a"
      using Cons.prems(1) p by simp
    then have "a \<in> snd ` set km"
      by (metis map_of_SomeD image_eqI snd_conv)
    then have ne: "a' \<noteq> a"
      using Cons.prems(2) p by auto
    have "read_groups (h[a := MatchList (matches_at h a @ [e])]) km =
            append_match k e (read_groups h km)"
      using Cons.IH [OF m] Cons.prems(2,3) by simp
    then show ?thesis
      using False p ne by (simp add: read_groups_def matches_at_update)
  qed
qed

lemma read_groups_keys: "map fst (read_groups h km) = map fst km"
  by (induction km) (auto simp: read_groups_def)

lemma append_match_store_refines:
  assumes "append_match_store k e km h = (km', h')" and "fresh_groups n h km"
  shows "fresh_groups n h' km' \<and> take n h' = take n h \<and>
         read_groups h' km' = append_match k e (read_groups h km)"
proof (cases "map_of km k")
  case None
  then have eq: "km' = km @ [(k, length h)]" "h' = h @ [MatchList [e]]"
    using assms(1) by (simp_all add: append_match_store_def)
  have "k \<notin> fst ` set (read_groups h km)"
    using None by (metis map_of_eq_None_iff read_groups_keys set_map)
  then have "append_match k e (read_groups h km) = read_groups h km @ [(k, [e])]"
    by (rule append_match_fresh_key)
  moreover have "read_groups h' km' = read_groups h km @ [(k, [e])]"
  proof -
    have "read_groups (h @ [MatchList [e]]) km = read_groups h km"
      using assms(2) by (intro read_groups_append_store) (simp add: fresh_groups_def)
    then show ?thesis
      unfolding eq by (simp add: read_groups_def matches_at_append)
  qed
  moreover have "fresh_groups n h' km'"
    using assms(2) unfolding eq by (fastforce simp: fresh_groups_def)
  moreover have "take n h' = take n h"
    using assms(2) unfolding eq by (simp add: fresh_groups_def)
  ultimately show ?thesis
    by simp
next
  case (Some a)
  then have eq: "km' = km" "h' = h[a := MatchList (matches_at h a @ [e])]"
    using assms(1) by (simp_all add: append_match_store_def)
  have "a \<in> snd ` set km"
    using Some by (metis map_of_SomeD image_eqI snd_conv)
  then have a: "n \<le> a" "a < length h"
    using assms(2) by (auto simp: fresh_groups_def)
  have "read_groups h' km' = append_match k e (read_groups h km)"
    unfolding eq using Some assms(2)
    by (intro read_groups_append_existing) (auto simp: fresh_groups_def)
  moreover have "fresh_groups n h' km'"
    using assms(2) unfolding eq by (simp add: fresh_groups_def)
  moreover have "take n h' = take n h"
    unfolding eq using a by simp
  ultimately show ?thesis
    by simp
qed


lemma match_keywords_words:
  assumes "frequency_words s = frequency_words s'" and "filter_words s = filter_words s'"
    and "must_words s = must_words s'"
  shows "match_keywords lower s ttl = match_keywords lower s' ttl"
  using assms by (simp add: match_keywords_def Let_def)

lemma match_keywords_view:
  "match_keywords lower (view h self) ttl = match_keywords lower (view h' self) ttl"
  by (rule match_keywords_words) (simp_all add: view_def)

lemma obj_at_extends:
  assumes "take (length h0) h = h0" and "obj_at h0 a = Some x"
  shows "obj_at h a = Some x"
proof -
  have a: "a < length h0"
    using assms(2) by (simp add: obj_at_def split: if_splits)
  have l: "length h0 \<le> length h"
    using assms(1) by (metis length_take min.cobounded1)
  have "obj_at h a = obj_at h0 a"
    using assms(1) a l by (intro obj_at_prefix [of "length h0"]) simp_all
  then show ?thesis
    using assms(2) by simp
qed

lemma wf_store_headlines:
  assumes "wf_store h self"
  obtains items where "obj_at h (o_all_data self) = Some (HeadlineList items)"
    and "\<forall>i\<in>set items. \<exists>it. obj_at h i = Some (Headline it)"
proof -
  from assms obtain items where o: "obj_at h (o_all_data self) = Some (HeadlineList items)"
    and l: "list_all (\<lambda>i. case obj_at h i of Some (Headline it) \<Rightarrow> True | _ \<Rightarrow> False) items"
    by (auto simp: wf_store_def split: option.splits obj.splits)
  have "\<exists>it. obj_at h i = Some (Headline it)" if "i \<in> set items" for i
  proof -
    have "case obj_at h i of Some (Headline it) \<Rightarrow> True | _ \<Rightarrow> False"
      using l that by (simp add: list_all_iff)
    then show ?thesis
      by (cases "obj_at h i"; cases "the (obj_at h i)") simp_all
  qed
  then have "\<forall>i\<in>set items. \<exists>it. obj_at h i = Some (Headline it)"
    by blast
  with o show ?thesis
    by (rule that)
qed

lemma headlines_nth:
  assumes "\<forall>i\<in>set items. \<exists>it. obj_at h i = Some (Headline it)"
  shows "concat (map (headline_at h) items) = map (\<lambda>i. hd (headline_at h i)) items"
  using assms by (induction items) (auto simp: headline_at_def)

lemma store_extends_view:
  assumes "wf_store h0 self" and "take (length h0) h = h0"
  shows "view h self = view h0 self \<and> all_data_refs h self = all_data_refs h0 self \<and>
         wf_store h self"
proof -
  from assms(1) obtain items where o: "obj_at h0 (o_all_data self) = Some (HeadlineList items)"
    and i: "\<forall>i\<in>set items. \<exists>it. obj_at h0 i = Some (Headline it)"
    by (rule wf_store_headlines)
  have o': "obj_at h (o_all_data self) = Some (HeadlineList items)"
    using assms(2) o by (rule obj_at_extends)
  have i': "obj_at h j = obj_at h0 j" if "j \<in> set items" for j
    using i that obj_at_extends [OF assms(2)] by fastforce
  have r: "all_data_refs h self = all_data_refs h0 self"
    by (simp add: all_data_refs_def o o')
  have m: "map (headline_at h) items = map (headline_at h0) items"
    by (rule map_cong) (simp_all add: headline_at_def i')
  have v: "view h self = view h0 self"
    by (simp add: view_def all_data_refs_def o o' m)
  have "wf_store h self"
    using i i' by (auto simp: wf_store_def o' list_all_iff)
  with v r show ?thesis
    by simp
qed

lemma loop_body_store_refines:
  assumes "refines h0 st pst" and "obj_at h0 i = Some (Headline it)"
  shows "refines h0 (loop_body_store lower self st i) (loop_body lower (view h0 self) pst it)"
proof -
  have p: "take (length h0) (lo_store st) = h0"
    using assms(1) by (simp add: refines_def)
  have o: "obj_at (lo_store st) i = Some (Headline it)"
    using p assms(2) by (rule obj_at_extends)
  obtain ms fl where m: "match_keywords lower (view h0 self) (title it) = (ms, fl)"
    by (cases "match_keywords lower (view h0 self) (title it)")
  then have m': "match_keywords lower (view (lo_store st) self) (title it) = (ms, fl)"
    using match_keywords_view [of lower "lo_store st" self "title it" h0] by simp
  show ?thesis
  proof (cases fl)
    case True
    then show ?thesis
      using assms(1) by (simp add: loop_body_store_def loop_body_def o m m' refines_def)
  next
    case False
    show ?thesis
    proof (cases ms)
      case Nil
      then show ?thesis
        using assms(1) False by (simp add: loop_body_store_def loop_body_def o m m')
    next
      case (Cons k ks)
      define e where "e = \<lparr>m_title = title it, m_platform = platform_name it, m_rank = rank it,
                            m_url = url it, m_timestamp = timestamp it,
                            all_matched_keywords = k # ks\<rparr>"
      obtain km' h' where a: "append_match_store k e (lo_keyword_matches st) (lo_store st) = (km', h')"
        by (cases "append_match_store k e (lo_keyword_matches st) (lo_store st)")
      have f: "fresh_groups (length h0) (lo_store st) (lo_keyword_matches st)"
        using assms(1) by (simp add: refines_def)
      from append_match_store_refines [OF a f]
      have r: "fresh_groups (length h0) h' km'" "take (length h0) h' = take (length h0) (lo_store st)"
        "read_groups h' km' = append_match k e (read_groups (lo_store st) (lo_keyword_matches st))"
        by simp_all
      have s: "loop_body_store lower self st i =
          st\<lparr>lo_matched_count := lo_matched_count st + 1, lo_keyword_matches := km',
             lo_store := h'\<rparr>"
        using False Cons a by (simp add: loop_body_store_def o m' e_def)
      have t: "loop_body lower (view h0 self) pst it =
          pst\<lparr>ls_matched_count := ls_matched_count pst + 1,
              ls_keyword_matches := append_match k e (ls_keyword_matches pst)\<rparr>"
        using False Cons by (simp add: loop_body_def m e_def)
      show ?thesis
        unfolding s t using assms(1) r p by (simp add: refines_def)
    qed
  qed
qed


lemma loop_store_step:
  assumes "obj_at (lo_store st) (o_all_data self) = Some (HeadlineList items)"
    and "idx < length items"
  shows "loop_store lower self st idx =
           loop_store lower self (loop_body_store lower self st (items ! idx)) (idx + 1)"
  by (subst loop_store.simps) (simp add: assms)

lemma loop_store_stop:
  assumes "obj_at (lo_store st) (o_all_data self) = Some (HeadlineList items)"
    and "\<not> idx < length items"
  shows "loop_store lower self st idx = st"
  by (subst loop_store.simps) (simp add: assms)


lemma wf_store_all_data:
  assumes "obj_at h0 (o_all_data self) = Some (HeadlineList items)"
    and "\<forall>i\<in>set items. \<exists>it. obj_at h0 i = Some (Headline it)"
  shows "all_data (view h0 self) = map (\<lambda>i. hd (headline_at h0 i)) items"
  using headlines_nth [OF assms(2)] by (simp add: view_def all_data_refs_def assms(1))

lemma drop_headlines:
  assumes "idx < length items" and "obj_at h0 (items ! idx) = Some (Headline it)"
  shows "drop idx (map (\<lambda>i. hd (headline_at h0 i)) items) =
           it # drop (idx + 1) (map (\<lambda>i. hd (headline_at h0 i)) items)"
proof -
  have "drop idx items = items ! idx # drop (Suc idx) items"
    using assms(1) by (rule Cons_nth_drop_Suc [symmetric])
  then have "map (\<lambda>i. hd (headline_at h0 i)) (drop idx items) =
      hd (headline_at h0 (items ! idx)) # map (\<lambda>i. hd (headline_at h0 i)) (drop (Suc idx) items)"
    by simp
  moreover have "hd (headline_at h0 (items ! idx)) = it"
    by (simp add: headline_at_def assms(2))
  ultimately show ?thesis
    by (simp add: drop_map)
qed

lemma loop_store_refines_from:
  assumes "obj_at h0 (o_all_data self) = Some (HeadlineList items)"
    and "\<forall>i\<in>set items. \<exists>it. obj_at h0 i = Some (Headline it)"
    and "refines h0 st pst"
  shows "refines h0 (loop_store lower self st idx)
           (loop lower (view h0 self) pst (drop idx (map (\<lambda>i. hd (headline_at h0 i)) items)))"
  using assms(3)
proof (induction "length items - idx" arbitrary: st pst idx)
  case 0
  have "take (length h0) (lo_store st) = h0"
    using "0.prems" by (simp add: refines_def)
  then have os: "obj_at (lo_store st) (o_all_data self) = Some (HeadlineList items)"
    using assms(1) by (rule obj_at_extends)
  have "\<not> idx < length items"
    using "0.hyps" by simp
  then have "loop_store lower self st idx = st"
    and "drop idx (map (\<lambda>i. hd (headline_at h0 i)) items) = []"
    using os by (simp_all add: loop_store_stop)
  then show ?case
    using "0.prems" by simp
next
  case (Suc n)
  then have lt: "idx < length items"
    by simp
  have "take (length h0) (lo_store st) = h0"
    using Suc.prems by (simp add: refines_def)
  then have os: "obj_at (lo_store st) (o_all_data self) = Some (HeadlineList items)"
    using assms(1) by (rule obj_at_extends)
  obtain it where it: "obj_at h0 (items ! idx) = Some (Headline it)"
    using assms(2) lt by (meson nth_mem)
  have b: "refines h0 (loop_body_store lower self st (items ! idx))
             (loop_body lower (view h0 self) pst it)"
    using Suc.prems it by (rule loop_body_store_refines)
  have n: "n = length items - (idx + 1)"
    using Suc.hyps(2) by simp
  have "refines h0 (loop_store lower self (loop_body_store lower self st (items ! idx)) (idx + 1))
      (loop lower (view h0 self) (loop_body lower (view h0 self) pst it)
         (drop (idx + 1) (map (\<lambda>i. hd (headline_at h0 i)) items)))"
    using n b by (rule Suc.hyps(1))
  then show ?case
    unfolding loop_store_step [OF os lt] drop_headlines [OF lt it] loop.simps .
qed

lemma sort_groups_length: "length (sort_groups km h) = length h"
  by (induction km arbitrary: h) auto

lemma sort_groups_prefix:
  "\<forall>a\<in>snd ` set km. n \<le> a \<Longrightarrow> take n (sort_groups km h) = take n h"
  by (induction km arbitrary: h) auto

lemma sort_groups_matches:
  "distinct (map snd km) \<Longrightarrow>
   matches_at (sort_groups km h) a =
     (if a \<in> snd ` set km then sort_key m_rank (matches_at h a) else matches_at h a)"
proof (induction km arbitrary: h)
  case Nil
  then show ?case by simp
next
  case (Cons p km)
  obtain k b where p: "p = (k, b)"
    by (cases p)
  have nb: "matches_at h b = []" if "\<not> b < length h"
    using that by (simp add: matches_at_def obj_at_def)
  show ?case
    using Cons p nb by (auto simp: matches_at_update)
qed

lemma sort_groups_read:
  assumes "distinct (map snd km)"
  shows "read_groups (sort_groups km h) km =
           map (\<lambda>(k, es). (k, sort_key m_rank es)) (read_groups h km)"
  by (simp add: read_groups_def sort_groups_matches [OF assms] case_prod_unfold)

lemma read_groups_lengths:
  "map (\<lambda>(k, a). (k, length (matches_at h a))) km =
     map (\<lambda>(k, es). (k, length es)) (read_groups h km)"
  by (simp add: read_groups_def case_prod_unfold)

lemma analyze_data_store_refines:
  assumes "wf_store h self" and "analyze_data_store lower self h now_text = (r, h')"
  shows "length h \<le> length h' \<and> take (length h) h' = h \<and>
         read_analysis h' r = analyze_data lower (view h self) now_text \<and>
         (\<forall>a\<in>snd ` set (r_keyword_matches r). a < length h')"
proof -
  from assms(1) obtain items where o: "obj_at h (o_all_data self) = Some (HeadlineList items)"
    and i: "\<forall>i\<in>set items. \<exists>it. obj_at h i = Some (Headline it)"
    by (rule wf_store_headlines)
  define st where "st = loop_store lower self
     \<lparr>lo_store = h, lo_keyword_matches = [], lo_filtered_count = 0, lo_matched_count = 0\<rparr> 0"
  define pst where "pst = loop lower (view h self)
     \<lparr>ls_keyword_matches = [], ls_filtered_count = 0, ls_matched_count = 0\<rparr>
     (all_data (view h self))"
  have "refines h \<lparr>lo_store = h, lo_keyword_matches = [], lo_filtered_count = 0,
                    lo_matched_count = 0\<rparr>
          \<lparr>ls_keyword_matches = [], ls_filtered_count = 0, ls_matched_count = 0\<rparr>"
    by (simp add: refines_def fresh_groups_def read_groups_def)
  from loop_store_refines_from [OF o i this, of lower 0]
  have rf: "refines h st pst"
    by (simp add: st_def pst_def wf_store_all_data [OF o i])
  then have f: "fresh_groups (length h) (lo_store st) (lo_keyword_matches st)"
    and p: "take (length h) (lo_store st) = h"
    and g: "read_groups (lo_store st) (lo_keyword_matches st) = ls_keyword_matches pst"
    and c: "lo_filtered_count st = ls_filtered_count pst" "lo_matched_count st = ls_matched_count pst"
    by (simp_all add: refines_def)
  have h': "h' = sort_groups (lo_keyword_matches st) (lo_store st)"
    and r: "r = \<lparr>r_total_items = length (all_data_refs h self),
           r_matched_count = lo_matched_count st,
           r_filtered_count = lo_filtered_count st,
           r_platform_stats = counter (map platform_name (all_data (view h self))),
           r_keyword_matches = lo_keyword_matches st,
           r_keyword_popularity =
             map (\<lambda>(keyword, a). (keyword, length (matches_at (lo_store st) a)))
               (lo_keyword_matches st),
           r_sorted_keywords = sorted_reverse (\<lambda>x. int (snd x))
             (map (\<lambda>(keyword, a). (keyword, length (matches_at (lo_store st) a)))
               (lo_keyword_matches st)),
           r_analysis_time = now_text,
           r_summary = \<lparr>frequency_words_count = length (o_frequency_words self),
                        filter_words_count = length (o_filter_words self),
                        must_words_count = length (o_must_words self),
                        platforms_count = PLATFORMS_len\<rparr>\<rparr>"
    using assms(2) by (simp_all add: analyze_data_store_def Let_def st_def)
  have len: "length h' = length (lo_store st)"
    unfolding h' by (rule sort_groups_length)
  have 1: "length h \<le> length h'"
    using f len by (simp add: fresh_groups_def)
  have "take (length h) h' = take (length h) (lo_store st)"
    unfolding h' using f by (intro sort_groups_prefix) (simp add: fresh_groups_def)
  then have 2: "take (length h) h' = h"
    using p by simp
  have 4: "\<forall>a\<in>snd ` set (r_keyword_matches r). a < length h'"
    using f len by (simp add: r fresh_groups_def)
  have t: "length (all_data_refs h self) = length (all_data (view h self))"
    using headlines_nth [OF i] by (simp add: view_def all_data_refs_def o)
  have km: "read_groups h' (lo_keyword_matches st) =
      map (\<lambda>(k, es). (k, sort_key m_rank es)) (ls_keyword_matches pst)"
    unfolding h' g [symmetric] using f by (intro sort_groups_read) (simp add: fresh_groups_def)
  have pop: "map (\<lambda>(keyword, a). (keyword, length (matches_at (lo_store st) a)))
        (lo_keyword_matches st) = map (\<lambda>(k, es). (k, length es)) (ls_keyword_matches pst)"
    unfolding g [symmetric] by (rule read_groups_lengths)
  have 3: "read_analysis h' r = analyze_data lower (view h self) now_text"
    unfolding r pop
    by (simp add: read_analysis_def analyze_data_def Let_def km c t pst_def [symmetric])
       (simp add: view_def)
  show ?thesis
    using 1 2 3 4 by simp
qed

lemma read_groups_prefix:
  assumes "take n h' = take n h" and "n \<le> length h" and "n \<le> length h'"
    and "\<forall>a\<in>snd ` set km. a < n"
  shows "read_groups h' km = read_groups h km"
proof -
  have "matches_at h' (snd p) = matches_at h (snd p)" if "p \<in> set km" for p
    using obj_at_prefix [OF assms(1) _ assms(2,3), of "snd p"] assms(4) that
    by (simp add: matches_at_def)
  then show ?thesis
    by (simp add: read_groups_def case_prod_unfold)
qed

section \<open>The keyword lists: claims\<close>

text \<open>
  C3 (as amended). For every line of the file whose stripped form starts with \<open>!\<close>,
  what follows the \<open>!\<close> in the stripped line is added to the filter words as it is:
  whitespace between the \<open>!\<close> and the word is kept (trailing whitespace went with the
  strip of the line). Likewise a line that starts with \<open>+\<close> adds what follows the
  \<open>+\<close> to the must words. This holds whatever \<open>str.strip()\<close> takes for whitespace.
\<close>

theorem prefixed_remainder_loaded:
  assumes "line \<in> set (split_lines text)" and "strip isspace line = p # rest"
  shows "(p = 33 \<longrightarrow> rest \<in> set (load_filter_words isspace (Some text))) \<and>
         (p = 43 \<longrightarrow> rest \<in> set (load_must_words isspace (Some text)))"
proof -
  obtain l where l: "l \<in> set (split_lines (strip isspace text))" "strip isspace l = p # rest"
    using lines_strip [OF assms(1), of isspace] assms(2) by auto
  show ?thesis
    using collect_prefixed_mem [OF l, of "[]"]
    by (auto simp: load_filter_words_def load_must_words_def Let_def)
qed

text \<open>
  A file of three lines, \<open>x\<close>, then an ideographic space (U+3000, 12288), \<open>! AI\<close> and
  another ideographic space, then \<open>+b\<close>: the filter word is \<open>AI\<close> with the blank
  before it.
\<close>

theorem prefixed_remainder_loaded_witness:
  "32 # ascii ''AI'' \<in> set (load_filter_words unicode_isspace
      (Some (ascii ''x'' @ [10, 12288] @ ascii ''! AI'' @ [12288, 10] @ ascii ''+b'')))"
proof -
  have l: "[12288] @ ascii ''! AI'' @ [12288]
      \<in> set (split_lines (ascii ''x'' @ [10, 12288] @ ascii ''! AI'' @ [12288, 10] @ ascii ''+b''))"
    by (simp add: ascii_def)
  have s: "strip unicode_isspace ([12288] @ ascii ''! AI'' @ [12288]) = 33 # 32 # ascii ''AI''"
    by (simp add: strip_def unicode_isspace_def ascii_def)
  from prefixed_remainder_loaded [OF l s] show ?thesis
    by simp
qed

text \<open>
  The line \<open>! foo\<close> adds the word \<open>foo\<close> with the blank before it: the trimmed
  remainder \<open>foo\<close> is not among the filter words.
\<close>

theorem remainder_not_trimmed_counterexample:
  "load_filter_words unicode_isspace (Some (ascii ''! foo'')) = [ascii '' foo''] \<and>
   strip unicode_isspace (drop 1 (strip unicode_isspace (ascii ''! foo''))) = ascii ''foo'' \<and>
   strip unicode_isspace (drop 1 (strip unicode_isspace (ascii ''! foo'')))
     \<notin> set (load_filter_words unicode_isspace (Some (ascii ''! foo'')))"
  by (simp add: load_filter_words_def strip_def unicode_isspace_def ascii_def)

section \<open>Classification: claims\<close>

text \<open>
  C4 (as amended). For every non-empty title and every analyzer, if the lower-cased title
  contains the lower-cased form of a filter word, \<open>match_keywords\<close> returns
  \<open>([], True)\<close>, whatever the must words and the frequency words are. \<open>lower\<close> is
  \<open>str.lower()\<close>, whatever it maps a text to.
\<close>

theorem filter_word_takes_precedence:
  assumes "ttl \<noteq> []" and "w \<in> set (filter_words self)" and "str_in (lower w) (lower ttl)"
  shows "match_keywords lower self ttl = ([], True)"
  using assms by (auto simp: match_keywords_def filter_hit_iff Let_def)

theorem filter_word_takes_precedence_witness:
  "match_keywords ascii_lower
     \<lparr>frequency_words = [ascii ''AI''], filter_words = [ascii ''ad''],
      must_words = [ascii ''stock''], all_data = [], analysis_result = None\<rparr>
     (ascii ''AD for AI'') = ([], True)"
proof -
  have t: "ascii ''AD for AI'' \<noteq> []"
    by (simp add: ascii_def)
  have m: "ascii ''ad'' \<in> set (filter_words \<lparr>frequency_words = [ascii ''AI''],
      filter_words = [ascii ''ad''], must_words = [ascii ''stock''], all_data = [],
      analysis_result = None\<rparr>)"
    by simp
  have c: "str_in (ascii_lower (ascii ''ad'')) (ascii_lower (ascii ''AD for AI''))"
    by (simp add: ascii_lower_def ascii_def)
  show ?thesis
    by (rule filter_word_takes_precedence [OF t m c])
qed

text \<open>
  The empty title contains the empty filter word, and is not filtered: the test for an
  empty title comes first.
\<close>

theorem empty_title_not_filtered_counterexample:
  "str_in (ascii_lower []) (ascii_lower []) \<and>
   match_keywords ascii_lower \<lparr>frequency_words = [], filter_words = [[]], must_words = [],
      all_data = [], analysis_result = None\<rparr> [] = ([], False) \<and>
   match_keywords ascii_lower \<lparr>frequency_words = [], filter_words = [[]], must_words = [],
      all_data = [], analysis_result = None\<rparr> [] \<noteq> ([], True)"
  by (simp add: match_keywords_def ascii_lower_def)

text \<open>
  C5. For every headline whose title contains no filter word, when some must word is not
  contained in the title, \<open>match_keywords\<close> returns \<open>([], False)\<close>, whatever the
  frequency words match (containment is that of the code: of the lower-cased word in the
  lower-cased title, for \<open>str.lower()\<close> whatever it is). The loop of \<open>analyze_data\<close>
  leaves its state as it is at such a headline, and the analysis of a list with the
  headline in it is the analysis of the list without it, but for \<open>total_items\<close>, which
  counts it, and \<open>platform_stats\<close>, which counts its platform: no group holds it, and
  neither \<open>filtered_count\<close> nor \<open>matched_count\<close> counts it.
\<close>

theorem must_word_missing_rejected:
  assumes "\<forall>f\<in>set (filter_words self). \<not> str_in (lower f) (lower (title it))"
    and "m \<in> set (must_words self)" and "\<not> str_in (lower m) (lower (title it))"
  shows "match_keywords lower self (title it) = ([], False) \<and>
         loop_body lower self st it = st \<and>
         analyze_data lower (self\<lparr>all_data := xs @ it # ys\<rparr>) now_text =
           (analyze_data lower (self\<lparr>all_data := xs @ ys\<rparr>) now_text)
             \<lparr>total_items := length (xs @ ys) + 1,
              platform_stats := counter (map platform_name (xs @ it # ys))\<rparr>"
proof -
  have "\<not> filter_hit lower (filter_words self) (lower (title it))"
    using assms(1) by (simp add: filter_hit_iff)
  moreover have "must_words self \<noteq> []"
    using assms(2) by auto
  moreover have "must_match_count lower (must_words self) (lower (title it))
      < length (must_words self)"
    using assms(2,3) by (auto simp: must_match_count_less)
  ultimately have mk: "match_keywords lower self (title it) = ([], False)"
    by (simp add: match_keywords_def Let_def)
  have body: "loop_body lower self st' it = st'" for st'
    by (simp add: loop_body_def mk)
  have "loop lower self st' (xs @ it # ys) = loop lower self st' (xs @ ys)" for st'
    by (simp add: loop_append body)
  then show ?thesis
    using mk body by (simp add: analyze_data_def loop_all_data Let_def)
qed

theorem must_word_missing_rejected_witness:
  "match_keywords ascii_lower \<lparr>frequency_words = [ascii ''stock''], filter_words = [ascii ''ad''],
      must_words = [ascii ''stock'', ascii ''down''], all_data = [], analysis_result = None\<rparr>
      (ascii ''Stock up'')
     = ([], False) \<and>
   (let r = analyze_data ascii_lower \<lparr>frequency_words = [ascii ''stock''],
        filter_words = [ascii ''ad''], must_words = [ascii ''stock'', ascii ''down''],
        all_data = [\<lparr>title = ascii ''Stock up'', url = ascii ''u'', rank = 1,
                     platform_id = ascii ''baidu'', timestamp = ascii ''t'',
                     platform_name = ascii ''Baidu''\<rparr>],
        analysis_result = None\<rparr> (ascii ''now'')
    in total_items r = 1 \<and> filtered_count r = 0 \<and> matched_count r = 0 \<and>
       keyword_matches r = [])"
proof -
  define self where "self = \<lparr>frequency_words = [ascii ''stock''], filter_words = [ascii ''ad''],
      must_words = [ascii ''stock'', ascii ''down''], all_data = ([] :: item list),
      analysis_result = (None :: analysis option)\<rparr>"
  define it where "it = \<lparr>title = ascii ''Stock up'', url = ascii ''u'', rank = 1,
      platform_id = ascii ''baidu'', timestamp = ascii ''t'', platform_name = ascii ''Baidu''\<rparr>"
  have f: "\<forall>f\<in>set (filter_words self). \<not> str_in (ascii_lower f) (ascii_lower (title it))"
    by (simp add: self_def it_def ascii_lower_def ascii_def)
  have m: "ascii ''down'' \<in> set (must_words self)"
    by (simp add: self_def)
  have n: "\<not> str_in (ascii_lower (ascii ''down'')) (ascii_lower (title it))"
    by (simp add: it_def ascii_lower_def ascii_def)
  have e: "analyze_data ascii_lower (self\<lparr>all_data := []\<rparr>) (ascii ''now'') =
      \<lparr>total_items = 0, matched_count = 0, filtered_count = 0, platform_stats = [],
       keyword_matches = [], keyword_popularity = [], sorted_keywords = [],
       analysis_time = ascii ''now'',
       summary = \<lparr>frequency_words_count = 1, filter_words_count = 1, must_words_count = 2,
                  platforms_count = PLATFORMS_len\<rparr>\<rparr>"
    by (simp add: analyze_data_def self_def counter_def sorted_reverse_def)
  from must_word_missing_rejected [OF f m n, of _ "[]" "[]" "ascii ''now''"]
  have "match_keywords ascii_lower self (title it) = ([], False)"
    and "analyze_data ascii_lower (self\<lparr>all_data := [it]\<rparr>) (ascii ''now'') =
           (analyze_data ascii_lower (self\<lparr>all_data := []\<rparr>) (ascii ''now''))
             \<lparr>total_items := 1, platform_stats := counter (map platform_name [it])\<rparr>"
    by simp_all
  then show ?thesis
    unfolding e by (simp add: self_def it_def)
qed

text \<open>
  C10. When a line of the file is, once stripped, the single character \<open>!\<close> (so also
  when only whitespace follows the \<open>!\<close>, whatever \<open>str.strip()\<close> takes for
  whitespace), the empty string is among the filter words; then \<open>match_keywords\<close>
  returns \<open>([], True)\<close> for every non-empty title, and \<open>([], False)\<close> for the empty
  title, which the test for an empty title answers before the filter words are looked
  at. Of \<open>str.lower()\<close> the proof uses that it maps the empty string to itself.
\<close>

theorem bare_filter_prefix_filters_all:
  assumes "line \<in> set (split_lines text)" and "strip isspace line = [33]"
    and "filter_words self = load_filter_words isspace (Some text)"
    and "lower [] = []"
  shows "[] \<in> set (filter_words self) \<and> match_keywords lower self ttl = ([], ttl \<noteq> [])"
proof -
  obtain l where l: "l \<in> set (split_lines (strip isspace text))" "strip isspace l = [33]"
    using lines_strip [OF assms(1), of isspace] assms(2) by auto
  have mem: "[] \<in> set (filter_words self)"
    using collect_prefixed_mem [OF l, of "[]"] assms(3)
    by (simp add: load_filter_words_def Let_def)
  then have "filter_hit lower (filter_words self) tlow" for tlow
    unfolding filter_hit_iff using assms(4) str_in_empty by (intro bexI [of _ "[]"]) simp_all
  then show ?thesis
    using mem by (simp add: match_keywords_def Let_def)
qed

text \<open>
  A file of three lines, \<open>AI\<close>, then \<open>!\<close> followed by an ideographic space (U+3000,
  12288), then \<open>+b\<close>: the title \<open>AI news\<close> is filtered.
\<close>

theorem bare_filter_prefix_filters_all_witness:
  "match_keywords ascii_lower \<lparr>frequency_words = [ascii ''AI''],
      filter_words = load_filter_words unicode_isspace
        (Some (ascii ''AI'' @ [10, 33, 12288, 10] @ ascii ''+b'')),
      must_words = [], all_data = [], analysis_result = None\<rparr> (ascii ''AI news'') = ([], True)"
proof -
  have l: "[33, 12288] \<in> set (split_lines (ascii ''AI'' @ [10, 33, 12288, 10] @ ascii ''+b''))"
    by (simp add: ascii_def)
  have s: "strip unicode_isspace [33, 12288] = [33]"
    by (simp add: strip_def unicode_isspace_def)
  have f: "filter_words \<lparr>frequency_words = [ascii ''AI''],
      filter_words = load_filter_words unicode_isspace
        (Some (ascii ''AI'' @ [10, 33, 12288, 10] @ ascii ''+b'')),
      must_words = [], all_data = [], analysis_result = None\<rparr>
      = load_filter_words unicode_isspace (Some (ascii ''AI'' @ [10, 33, 12288, 10] @ ascii ''+b''))"
    by simp
  have e: "ascii_lower [] = []"
    by (simp add: ascii_lower_def)
  from bare_filter_prefix_filters_all
    [of "[33, 12288]" _ unicode_isspace _ ascii_lower "ascii ''AI news''", OF l s f e]
  show ?thesis
    by (simp add: ascii_def)
qed

section \<open>The time window: claims\<close>

text \<open>
  C7. For every configuration, every reading of the clock and every parser of dates,
  a window that \<open>calculate_time_range\<close> returns has \<open>start_date \<le> end_date\<close> and
  \<open>end_date \<le> now\<close>.
\<close>

theorem time_range_invariant:
  assumes "calculate_time_range strptime now cfg = Inr w"
  shows "start_date w \<le> end_date w \<and> end_date w \<le> now"
proof (cases "duration_range now cfg = Inr w")
  case True
  then show ?thesis by (rule duration_range_window)
next
  case False
  have day: "datetime_sub t (timedelta_days 1) = Inr r \<Longrightarrow> r \<le> t" for t r
    by (auto simp: timedelta_days_def dest: datetime_sub_Inr)
  show ?thesis
    using assms False
    by (auto simp: calculate_time_range_def Let_def dest: day
             split: if_splits option.splits sum.splits)
qed

text \<open>
  A start date in the future, 2030-01-01, read on 2024-06-01: the window is the day
  before the reading.
\<close>

theorem time_range_invariant_witness:
  "start_date \<lparr>start_date = midnight_of_ordinal 739037, end_date = midnight_of_ordinal 739038,
      range_mode = from_date\<rparr>
     \<le> end_date \<lparr>start_date = midnight_of_ordinal 739037, end_date = midnight_of_ordinal 739038,
      range_mode = from_date\<rparr> \<and>
   end_date \<lparr>start_date = midnight_of_ordinal 739037, end_date = midnight_of_ordinal 739038,
      range_mode = from_date\<rparr> \<le> midnight_of_ordinal 739038"
proof -
  have h: "calculate_time_range
      (\<lambda>s. if s = ascii ''2030-01-01'' then Some (midnight_of_ordinal 741078) else None)
      (midnight_of_ordinal 739038)
      \<lparr>HISTORY_DAYS = 1, HISTORY_HOURS = 0, CUSTOM_START_DATE = ascii ''2030-01-01'',
       CUSTOM_END_DATE = []\<rparr>
    = Inr \<lparr>start_date = midnight_of_ordinal 739037, end_date = midnight_of_ordinal 739038,
           range_mode = from_date\<rparr>"
    by (simp add: ascii_def calculate_time_range_def datetime_sub_def datetime_min_def datetime_max_def
          midnight_of_ordinal_def timedelta_days_def)
  show ?thesis
    by (rule time_range_invariant [OF h])
qed

text \<open>
  C6 (as amended). For every configuration with both dates set and parsed, where the end
  date, clamped to \<open>now\<close>, is earlier than the start date, and the clamped end date is a
  \<open>datetime\<close> that has a day before it (it is 0001-01-02 or later):
  \<open>calculate_time_range\<close> returns the window from the clamped end date minus one day to
  the clamped end date, of mode \<open>custom_range\<close>.
\<close>

theorem reversed_range_resets_start:
  assumes "CUSTOM_START_DATE cfg \<noteq> []" and "CUSTOM_END_DATE cfg \<noteq> []"
    and "strptime (CUSTOM_START_DATE cfg) = Some start"
    and "strptime (CUSTOM_END_DATE cfg) = Some end_parsed"
    and "min end_parsed now < start"
    and "datetime_min + timedelta_days 1 \<le> min end_parsed now"
    and "min end_parsed now \<le> datetime_max"
  shows "calculate_time_range strptime now cfg =
           Inr \<lparr>start_date = min end_parsed now - timedelta_days 1,
                end_date = min end_parsed now, range_mode = custom_range\<rparr>"
proof -
  have e: "(if end_parsed > now then now else end_parsed) = min end_parsed now"
    by (simp add: min_def)
  have "datetime_sub (min end_parsed now) (timedelta_days 1) =
          Inr (min end_parsed now - timedelta_days 1)"
    using assms(6,7) unfolding datetime_sub_def timedelta_days_def by (simp add: min_def)
  then show ?thesis
    using assms(1-5) by (simp add: calculate_time_range_def e Let_def)
qed

text \<open>Start 2024-01-10, end 2024-01-01, read on 2024-06-01: the window is 2023-12-31 to
  2024-01-01.\<close>

theorem reversed_range_resets_start_witness:
  "calculate_time_range
     (\<lambda>s. if s = ascii ''2024-01-10'' then Some (midnight_of_ordinal 738895)
          else if s = ascii ''2024-01-01'' then Some (midnight_of_ordinal 738886) else None)
     (midnight_of_ordinal 739038)
     \<lparr>HISTORY_DAYS = 1, HISTORY_HOURS = 0,
      CUSTOM_START_DATE = ascii ''2024-01-10'', CUSTOM_END_DATE = ascii ''2024-01-01''\<rparr>
   = Inr \<lparr>start_date = midnight_of_ordinal 738885, end_date = midnight_of_ordinal 738886,
          range_mode = custom_range\<rparr>"
proof -
  define strptime where "strptime =
    (\<lambda>s. if s = ascii ''2024-01-10'' then Some (midnight_of_ordinal 738895)
         else if s = ascii ''2024-01-01'' then Some (midnight_of_ordinal 738886) else None)"
  define cfg where "cfg = \<lparr>HISTORY_DAYS = 1, HISTORY_HOURS = 0,
      CUSTOM_START_DATE = ascii ''2024-01-10'', CUSTOM_END_DATE = ascii ''2024-01-01''\<rparr>"
  have 1: "CUSTOM_START_DATE cfg \<noteq> []" and 2: "CUSTOM_END_DATE cfg \<noteq> []"
    by (simp_all add: cfg_def ascii_def)
  have 3: "strptime (CUSTOM_START_DATE cfg) = Some (midnight_of_ordinal 738895)"
    and 4: "strptime (CUSTOM_END_DATE cfg) = Some (midnight_of_ordinal 738886)"
    by (simp_all add: cfg_def strptime_def ascii_def)
  have 5: "min (midnight_of_ordinal 738886) (midnight_of_ordinal 739038) < midnight_of_ordinal 738895"
    and 6: "datetime_min + timedelta_days 1
              \<le> min (midnight_of_ordinal 738886) (midnight_of_ordinal 739038)"
    and 7: "min (midnight_of_ordinal 738886) (midnight_of_ordinal 739038) \<le> datetime_max"
    by (simp_all add: midnight_of_ordinal_def timedelta_days_def datetime_min_def datetime_max_def)
  from reversed_range_resets_start [OF 1 2 3 4 5 6 7] show ?thesis
    unfolding strptime_def cfg_def
    by (simp add: midnight_of_ordinal_def timedelta_days_def)
qed

text \<open>
  Start 0001-01-02, end 0001-01-01, the least \<open>datetime\<close>: there is no day before the
  end date, the subtraction raises \<open>OverflowError\<close>, and no window is returned.
\<close>

theorem reversed_range_overflow_counterexample:
  "calculate_time_range
     (\<lambda>s. if s = ascii ''0001-01-02'' then Some (midnight_of_ordinal 2)
          else if s = ascii ''0001-01-01'' then Some (midnight_of_ordinal 1) else None)
     (midnight_of_ordinal 739038)
     \<lparr>HISTORY_DAYS = 1, HISTORY_HOURS = 0,
      CUSTOM_START_DATE = ascii ''0001-01-02'', CUSTOM_END_DATE = ascii ''0001-01-01''\<rparr>
   = Inl OverflowError"
  by (simp add: ascii_def calculate_time_range_def datetime_sub_def datetime_min_def
        datetime_max_def midnight_of_ordinal_def timedelta_days_def)

text \<open>
  C2 (as amended). For every configuration in which the start date is set and parsed and
  the end date is set and does not parse, \<open>calculate_time_range\<close> goes on to the block
  of days and hours: with \<open>total_hours = HISTORY_DAYS * 24 + HISTORY_HOURS\<close>, or 24
  when that is not positive, it returns the window from \<open>now\<close> minus \<open>total_hours\<close> to
  \<open>now\<close>, of mode \<open>duration\<close>, and raises nothing, whenever \<open>now\<close> is a
  \<open>datetime\<close> and \<open>now\<close> minus \<open>total_hours\<close> is one.
\<close>

theorem malformed_end_date_uses_duration:
  assumes "CUSTOM_START_DATE cfg \<noteq> []" and "CUSTOM_END_DATE cfg \<noteq> []"
    and "strptime (CUSTOM_START_DATE cfg) = Some start"
    and "strptime (CUSTOM_END_DATE cfg) = None"
    and "total_hours = (if HISTORY_DAYS cfg * 24 + HISTORY_HOURS cfg \<le> 0 then 24
                        else HISTORY_DAYS cfg * 24 + HISTORY_HOURS cfg)"
    and "datetime_min + timedelta_hours total_hours \<le> now" and "now \<le> datetime_max"
  shows "calculate_time_range strptime now cfg =
           Inr \<lparr>start_date = now - timedelta_hours total_hours, end_date = now,
                range_mode = duration\<rparr>"
proof -
  have "0 < total_hours"
    using assms(5) by simp
  then have "datetime_sub now (timedelta_hours total_hours) = Inr (now - timedelta_hours total_hours)"
    using assms(6,7) by (simp add: datetime_sub_def timedelta_hours_def)
  then have "duration_range now cfg =
      Inr \<lparr>start_date = now - timedelta_hours total_hours, end_date = now, range_mode = duration\<rparr>"
    using assms(5) by (simp add: duration_range_def Let_def)
  then show ?thesis
    using assms(1-4) by (simp add: calculate_time_range_def)
qed

text \<open>Start 2024-03-01, end \<open>2024-13-45\<close>, two days and six hours, read on 2024-06-01.\<close>

theorem malformed_end_date_uses_duration_witness:
  "calculate_time_range
     (\<lambda>s. if s = ascii ''2024-03-01'' then Some (midnight_of_ordinal 738946) else None)
     (midnight_of_ordinal 739038)
     \<lparr>HISTORY_DAYS = 2, HISTORY_HOURS = 6,
      CUSTOM_START_DATE = ascii ''2024-03-01'', CUSTOM_END_DATE = ascii ''2024-13-45''\<rparr>
   = Inr \<lparr>start_date = midnight_of_ordinal 739038 - timedelta_hours 54,
          end_date = midnight_of_ordinal 739038, range_mode = duration\<rparr>"
proof -
  define strptime where "strptime =
    (\<lambda>s. if s = ascii ''2024-03-01'' then Some (midnight_of_ordinal 738946) else None)"
  define cfg where "cfg = \<lparr>HISTORY_DAYS = 2, HISTORY_HOURS = 6,
      CUSTOM_START_DATE = ascii ''2024-03-01'', CUSTOM_END_DATE = ascii ''2024-13-45''\<rparr>"
  have 1: "CUSTOM_START_DATE cfg \<noteq> []" and 2: "CUSTOM_END_DATE cfg \<noteq> []"
    by (simp_all add: cfg_def ascii_def)
  have 3: "strptime (CUSTOM_START_DATE cfg) = Some (midnight_of_ordinal 738946)"
    and 4: "strptime (CUSTOM_END_DATE cfg) = None"
    by (simp_all add: cfg_def strptime_def ascii_def)
  have 5: "54 = (if HISTORY_DAYS cfg * 24 + HISTORY_HOURS cfg \<le> 0 then 24
                 else HISTORY_DAYS cfg * 24 + HISTORY_HOURS cfg)"
    by (simp add: cfg_def)
  have 6: "datetime_min + timedelta_hours 54 \<le> midnight_of_ordinal 739038"
    and 7: "midnight_of_ordinal 739038 \<le> datetime_max"
    by (simp_all add: midnight_of_ordinal_def timedelta_days_def timedelta_hours_def
          datetime_min_def datetime_max_def)
  from malformed_end_date_uses_duration [OF 1 2 3 4 5 6 7] show ?thesis
    unfolding strptime_def cfg_def .
qed

text \<open>
  Start 2024-01-01, end \<open>2024-13-45\<close>, one day, read on 2024-06-01: the window is the
  last 24 hours, of mode \<open>duration\<close>, and not the window from 2024-01-01 of mode
  \<open>from_date\<close>.
\<close>

theorem malformed_end_date_counterexample:
  "calculate_time_range
     (\<lambda>s. if s = ascii ''2024-01-01'' then Some (midnight_of_ordinal 738886) else None)
     (midnight_of_ordinal 739038)
     \<lparr>HISTORY_DAYS = 1, HISTORY_HOURS = 0,
      CUSTOM_START_DATE = ascii ''2024-01-01'', CUSTOM_END_DATE = ascii ''2024-13-45''\<rparr>
   = Inr \<lparr>start_date = midnight_of_ordinal 739037, end_date = midnight_of_ordinal 739038,
          range_mode = duration\<rparr> \<and>
   calculate_time_range
     (\<lambda>s. if s = ascii ''2024-01-01'' then Some (midnight_of_ordinal 738886) else None)
     (midnight_of_ordinal 739038)
     \<lparr>HISTORY_DAYS = 1, HISTORY_HOURS = 0,
      CUSTOM_START_DATE = ascii ''2024-01-01'', CUSTOM_END_DATE = ascii ''2024-13-45''\<rparr>
   \<noteq> Inr \<lparr>start_date = midnight_of_ordinal 738886, end_date = midnight_of_ordinal 739038,
          range_mode = from_date\<rparr>"
  by (simp add: ascii_def calculate_time_range_def duration_range_def datetime_sub_def datetime_min_def
        datetime_max_def midnight_of_ordinal_def timedelta_days_def timedelta_hours_def)

section \<open>Aggregation: claims\<close>

text \<open>
  C8. For every collected headline with a match, \<open>match_keywords\<close> returns a list
  whose head \<open>k\<close>, the primary keyword, is the first frequency word, in the order of the
  list, whose lower-cased form the lower-cased title contains (\<open>lower\<close> is
  \<open>str.lower()\<close>, whatever it maps a text to). The loop counts the headline as matched
  and appends its entry to the list under \<open>k\<close>. In the result of \<open>analyze_data\<close> the
  entry is in the group of \<open>k\<close> and in the group of no other keyword, and the group of
  every keyword is made of the entries of exactly the headlines with that primary
  keyword, in the order of the headlines, sorted by rank.
\<close>

theorem primary_keyword_first_match:
  assumes "it \<in> set (all_data self)" and "fst (match_keywords lower self (title it)) \<noteq> []"
  shows "\<exists>k ms. match_keywords lower self (title it) = (k # ms, False) \<and>
           find (\<lambda>w. str_in (lower w) (lower (title it))) (frequency_words self) = Some k \<and>
           match_entry_of lower self it =
             \<lparr>m_title = title it, m_platform = platform_name it, m_rank = rank it,
              m_url = url it, m_timestamp = timestamp it, all_matched_keywords = k # ms\<rparr> \<and>
           (\<forall>st. loop_body lower self st it =
             st\<lparr>ls_matched_count := ls_matched_count st + 1,
                ls_keyword_matches :=
                  append_match k (match_entry_of lower self it) (ls_keyword_matches st)\<rparr>) \<and>
           (\<exists>es. map_of (keyword_matches (analyze_data lower self now_text)) k = Some es \<and>
                 match_entry_of lower self it \<in> set es) \<and>
           (\<forall>k' es. map_of (keyword_matches (analyze_data lower self now_text)) k' = Some es \<and>
                 match_entry_of lower self it \<in> set es \<longrightarrow> k' = k) \<and>
           (\<forall>k'. (case map_of (keyword_matches (analyze_data lower self now_text)) k' of
                    None \<Rightarrow> [] | Some es \<Rightarrow> es) =
                 sort_key m_rank (map (match_entry_of lower self)
                   (filter (\<lambda>i. primary_keywords lower self [i] = [k']) (all_data self))))"
proof -
  let ?r = "analyze_data lower self now_text"
  let ?e = "match_entry_of lower self it"
  have mk: "match_keywords lower self (title it) =
              (matched_words lower (frequency_words self) (lower (title it)), False)"
    using assms(2) by (rule match_keywords_nonempty)
  with assms(2) obtain k ms
    where km: "matched_words lower (frequency_words self) (lower (title it)) = k # ms"
    by (cases "matched_words lower (frequency_words self) (lower (title it))") auto
  have m: "match_keywords lower self (title it) = (k # ms, False)"
    using mk km by simp
  have f: "find (\<lambda>w. str_in (lower w) (lower (title it))) (frequency_words self) = Some k"
    using km by (rule matched_words_find)
  have e: "?e = \<lparr>m_title = title it, m_platform = platform_name it, m_rank = rank it,
              m_url = url it, m_timestamp = timestamp it, all_matched_keywords = k # ms\<rparr>"
    by (simp add: match_entry_of_def m)
  have b: "loop_body lower self st it =
             st\<lparr>ls_matched_count := ls_matched_count st + 1,
                ls_keyword_matches := append_match k ?e (ls_keyword_matches st)\<rparr>" for st
    unfolding e by (simp add: loop_body_def m)
  have p: "primary_keywords lower self [it] = [k]"
    by (simp add: m)
  have g: "(case map_of (keyword_matches ?r) k' of None \<Rightarrow> [] | Some es \<Rightarrow> es) =
      sort_key m_rank (map (match_entry_of lower self)
        (filter (\<lambda>i. primary_keywords lower self [i] = [k']) (all_data self)))" for k'
    by (rule analyze_data_group)
  have "?e \<in> set (case map_of (keyword_matches ?r) k of None \<Rightarrow> [] | Some es \<Rightarrow> es)"
    unfolding g using assms(1) p by simp
  then have here: "\<exists>es. map_of (keyword_matches ?r) k = Some es \<and> ?e \<in> set es"
    by (cases "map_of (keyword_matches ?r) k") simp_all
  have only: "k' = k" if s: "map_of (keyword_matches ?r) k' = Some es" and i: "?e \<in> set es"
    for k' es
  proof -
    have "?e \<in> set (case map_of (keyword_matches ?r) k' of None \<Rightarrow> [] | Some es \<Rightarrow> es)"
      using s i by simp
    then obtain j where j: "primary_keywords lower self [j] = [k']"
      and ej: "match_entry_of lower self j = ?e"
      unfolding g by auto
    from ej have "all_matched_keywords (match_entry_of lower self j) = k # ms"
      unfolding e by simp
    then have "fst (match_keywords lower self (title j)) = k # ms"
      by (simp add: match_entry_of_def)
    with j show ?thesis
      by (auto split: prod.splits list.splits bool.splits)
  qed
  show ?thesis
    using m f e b here only g by blast
qed

text \<open>
  Frequency words \<open>stock\<close>, \<open>break\<close>, \<open>AI\<close>, and two headlines: \<open>AI breakthrough\<close>
  is filed under \<open>break\<close>.
\<close>

theorem primary_keyword_first_match_witness:
  "\<exists>es. map_of (keyword_matches (analyze_data ascii_lower
       \<lparr>frequency_words = [ascii ''stock'', ascii ''break'', ascii ''AI''], filter_words = [],
        must_words = [],
        all_data = [\<lparr>title = ascii ''AI breakthrough'', url = ascii ''u1'', rank = 2,
                     platform_id = ascii ''baidu'', timestamp = ascii ''t'',
                     platform_name = ascii ''Baidu''\<rparr>,
                    \<lparr>title = ascii ''stock break'', url = ascii ''u2'', rank = 1,
                     platform_id = ascii ''weibo'', timestamp = ascii ''t'',
                     platform_name = ascii ''Weibo''\<rparr>],
        analysis_result = None\<rparr> (ascii ''now''))) (ascii ''break'') = Some es \<and>
     \<lparr>m_title = ascii ''AI breakthrough'', m_platform = ascii ''Baidu'', m_rank = 2,
      m_url = ascii ''u1'', m_timestamp = ascii ''t'',
      all_matched_keywords = [ascii ''break'', ascii ''AI'']\<rparr> \<in> set es"
proof -
  define it where "it = \<lparr>title = ascii ''AI breakthrough'', url = ascii ''u1'', rank = 2,
      platform_id = ascii ''baidu'', timestamp = ascii ''t'', platform_name = ascii ''Baidu''\<rparr>"
  define self where "self = \<lparr>frequency_words = [ascii ''stock'', ascii ''break'', ascii ''AI''],
      filter_words = [], must_words = [],
      all_data = [it, \<lparr>title = ascii ''stock break'', url = ascii ''u2'', rank = 1,
                     platform_id = ascii ''weibo'', timestamp = ascii ''t'',
                     platform_name = ascii ''Weibo''\<rparr>],
      analysis_result = (None :: analysis option)\<rparr>"
  have v: "match_keywords ascii_lower self (title it) = ([ascii ''break'', ascii ''AI''], False)"
    by (simp add: self_def it_def match_keywords_def ascii_lower_def ascii_def)
  then have h: "fst (match_keywords ascii_lower self (title it)) \<noteq> []"
    by simp
  have i: "it \<in> set (all_data self)"
    by (simp add: self_def)
  from primary_keyword_first_match [OF i h, of "ascii ''now''"]
  obtain k ms es where a: "match_keywords ascii_lower self (title it) = (k # ms, False)"
    and c: "match_entry_of ascii_lower self it =
             \<lparr>m_title = title it, m_platform = platform_name it, m_rank = rank it,
              m_url = url it, m_timestamp = timestamp it, all_matched_keywords = k # ms\<rparr>"
    and d: "map_of (keyword_matches (analyze_data ascii_lower self (ascii ''now''))) k = Some es"
    and e: "match_entry_of ascii_lower self it \<in> set es"
    by (elim exE conjE)
  from a v have k: "k = ascii ''break''" and ms: "ms = [ascii ''AI'']"
    by simp_all
  have "map_of (keyword_matches (analyze_data ascii_lower self (ascii ''now''))) (ascii ''break'')
          = Some es"
    using d unfolding k .
  moreover have "\<lparr>m_title = ascii ''AI breakthrough'', m_platform = ascii ''Baidu'', m_rank = 2,
      m_url = ascii ''u1'', m_timestamp = ascii ''t'',
      all_matched_keywords = [ascii ''break'', ascii ''AI'']\<rparr> \<in> set es"
    using e unfolding c k ms by (simp add: it_def)
  ultimately show ?thesis
    unfolding self_def it_def by blast
qed

text \<open>
  C1 (as amended). The ranking \<open>sorted_keywords\<close> of an analysis holds the pairs of a
  keyword and the size of its group, sorted by the count, descending. Keywords of equal
  count stand in the order of the keys of \<open>keyword_matches\<close>, and that is the order in
  which the groups were created: the order, in \<open>all_data\<close>, of the first headline filed
  under each keyword. The position of a keyword in the list of frequency words plays no
  part.
\<close>

theorem sorted_keywords_ranking:
  "mset (sorted_keywords (analyze_data lower self now_text)) =
     mset (map (\<lambda>(k, es). (k, length es)) (keyword_matches (analyze_data lower self now_text))) \<and>
   sorted_wrt (\<lambda>a b. snd b \<le> snd a) (sorted_keywords (analyze_data lower self now_text)) \<and>
   (\<forall>c. filter (\<lambda>x. snd x = c) (sorted_keywords (analyze_data lower self now_text)) =
         filter (\<lambda>x. snd x = c)
           (map (\<lambda>(k, es). (k, length es))
              (keyword_matches (analyze_data lower self now_text)))) \<and>
   map fst (keyword_matches (analyze_data lower self now_text)) =
     rev (remdups (rev (primary_keywords lower self (all_data self))))"
proof -
  define r where "r = analyze_data lower self now_text"
  define kms where "kms = ls_keyword_matches
     (loop lower self \<lparr>ls_keyword_matches = [], ls_filtered_count = 0, ls_matched_count = 0\<rparr>
        (all_data self))"
  define pop where "pop = map (\<lambda>(k, es). (k, length es)) kms"
  have sk: "sorted_keywords r = sorted_reverse (\<lambda>x. int (snd x)) pop"
    and km: "keyword_matches r = map (\<lambda>(k, es). (k, sort_key m_rank es)) kms"
    by (simp_all add: r_def analyze_data_def Let_def kms_def pop_def)
  have pop': "map (\<lambda>(k, es). (k, length es)) (keyword_matches r) = pop"
    unfolding km pop_def by (rule popularity_of_sorted_groups)
  have 1: "mset (sorted_keywords r) = mset (map (\<lambda>(k, es). (k, length es)) (keyword_matches r))"
    unfolding pop' sk by (rule sorted_reverse_mset)
  have 2: "sorted_wrt (\<lambda>a b. snd b \<le> snd a) (sorted_keywords r)"
    using sorted_reverse_sorted [of "\<lambda>x. int (snd x)" pop] unfolding sk by simp
  have 3: "filter (\<lambda>x. snd x = c) (sorted_keywords r) =
      filter (\<lambda>x. snd x = c) (map (\<lambda>(k, es). (k, length es)) (keyword_matches r))" for c
    using sorted_reverse_stable [of "\<lambda>x. int (snd x)" "int c" pop] unfolding pop' sk by simp
  have "map fst (keyword_matches r) = map fst kms"
    unfolding km by (induction kms) auto
  then have 4: "map fst (keyword_matches r) =
      rev (remdups (rev (primary_keywords lower self (all_data self))))"
    unfolding kms_def by (simp add: loop_keys)
  show ?thesis
    unfolding r_def [symmetric] by (intro conjI allI) (rule 1 2 3 4)+
qed

text \<open>
  Frequency words \<open>AI\<close>, \<open>stock\<close>; one headline for \<open>stock\<close>, then one for \<open>AI\<close>.
  Both counts are 1, \<open>AI\<close> is the earlier frequency word, and \<open>stock\<close> is ranked
  first.
\<close>

theorem ranking_tie_counterexample:
  "sorted_keywords (analyze_data ascii_lower
      \<lparr>frequency_words = [ascii ''AI'', ascii ''stock''], filter_words = [], must_words = [],
       all_data = [\<lparr>title = ascii ''stock market'', url = ascii ''u1'', rank = 1,
                    platform_id = ascii ''baidu'', timestamp = ascii ''t'',
                    platform_name = ascii ''Baidu''\<rparr>,
                   \<lparr>title = ascii ''AI breakthrough'', url = ascii ''u2'', rank = 2,
                    platform_id = ascii ''baidu'', timestamp = ascii ''t'',
                    platform_name = ascii ''Baidu''\<rparr>],
       analysis_result = None\<rparr> (ascii ''now'')) = [(ascii ''stock'', 1), (ascii ''AI'', 1)]"
  by (simp add: analyze_data_def loop_body_def match_keywords_def ascii_lower_def ascii_def
        sorted_reverse_def Let_def)

text \<open>
  C9. Running \<open>analyze_data\<close> twice on the same analyzer, in a store where
  \<open>self.all_data\<close> is a list of headlines: neither run changes an object that was there
  before it (so the headlines and the list of them are, after the first run, what they
  were), the result of the first run is the analysis of the first model, the result of
  the second run is the result of the first in every field but \<open>analysis_time\<close>,
  which holds the second reading of the clock, and the second run leaves the result of
  the first as it was.
\<close>

theorem analyze_data_deterministic:
  assumes "wf_store h self"
    and "analyze_data_store lower self h t1 = (r1, h1)"
    and "analyze_data_store lower self h1 t2 = (r2, h2)"
  shows "take (length h) h1 = h \<and> take (length h1) h2 = h1 \<and>
         read_analysis h1 r1 = analyze_data lower (view h self) t1 \<and>
         read_analysis h2 r2 = (read_analysis h1 r1)\<lparr>analysis_time := t2\<rparr> \<and>
         read_analysis h2 r1 = read_analysis h1 r1"
proof -
  from analyze_data_store_refines [OF assms(1,2)]
  have a: "length h \<le> length h1" "take (length h) h1 = h"
    "read_analysis h1 r1 = analyze_data lower (view h self) t1"
    "\<forall>a\<in>snd ` set (r_keyword_matches r1). a < length h1"
    by simp_all
  from store_extends_view [OF assms(1) a(2)]
  have v: "view h1 self = view h self" and w: "wf_store h1 self"
    by simp_all
  from analyze_data_store_refines [OF w assms(3)]
  have b: "length h1 \<le> length h2" "take (length h1) h2 = h1"
    "read_analysis h2 r2 = analyze_data lower (view h1 self) t2"
    by simp_all
  have "analyze_data lower (view h self) t2 =
      (analyze_data lower (view h self) t1)\<lparr>analysis_time := t2\<rparr>"
    by (simp add: analyze_data_def Let_def)
  then have c: "read_analysis h2 r2 = (read_analysis h1 r1)\<lparr>analysis_time := t2\<rparr>"
    using a(3) b(3) v by simp
  have "read_groups h2 (r_keyword_matches r1) = read_groups h1 (r_keyword_matches r1)"
    using b(1,2) a(4) by (intro read_groups_prefix [of "length h1"]) simp_all
  then have d: "read_analysis h2 r1 = read_analysis h1 r1"
    by (simp add: read_analysis_def)
  show ?thesis
    using a(2,3) b(2) c d by simp
qed

text \<open>
  A store of two headlines and the list of them, and the frequency words \<open>AI\<close> and
  \<open>stock\<close>.
\<close>

theorem analyze_data_deterministic_witness:
  "let self = \<lparr>o_frequency_words = [ascii ''AI'', ascii ''stock''], o_filter_words = [],
                o_must_words = [], o_all_data = 2\<rparr>;
       h = [Headline \<lparr>title = ascii ''stock market'', url = ascii ''u1'', rank = 1,
                      platform_id = ascii ''baidu'', timestamp = ascii ''t'',
                      platform_name = ascii ''Baidu''\<rparr>,
            Headline \<lparr>title = ascii ''AI breakthrough'', url = ascii ''u2'', rank = 2,
                      platform_id = ascii ''baidu'', timestamp = ascii ''t'',
                      platform_name = ascii ''Baidu''\<rparr>,
            HeadlineList [0, 1]];
       run1 = analyze_data_store ascii_lower self h (ascii ''t1'');
       run2 = analyze_data_store ascii_lower self (snd run1) (ascii ''t2'')
   in take (length h) (snd run1) = h \<and>
      read_analysis (snd run2) (fst run2) =
        (read_analysis (snd run1) (fst run1))\<lparr>analysis_time := ascii ''t2''\<rparr>"
proof -
  define self where "self = \<lparr>o_frequency_words = [ascii ''AI'', ascii ''stock''],
    o_filter_words = [], o_must_words = [], o_all_data = 2\<rparr>"
  define h where "h =
    [Headline \<lparr>title = ascii ''stock market'', url = ascii ''u1'', rank = 1,
               platform_id = ascii ''baidu'', timestamp = ascii ''t'',
               platform_name = ascii ''Baidu''\<rparr>,
     Headline \<lparr>title = ascii ''AI breakthrough'', url = ascii ''u2'', rank = 2,
               platform_id = ascii ''baidu'', timestamp = ascii ''t'',
               platform_name = ascii ''Baidu''\<rparr>,
     HeadlineList [0, 1]]"
  define run1 where "run1 = analyze_data_store ascii_lower self h (ascii ''t1'')"
  define run2 where "run2 = analyze_data_store ascii_lower self (snd run1) (ascii ''t2'')"
  have w: "wf_store h self"
    by (simp add: wf_store_def obj_at_def h_def self_def)
  have 1: "analyze_data_store ascii_lower self h (ascii ''t1'') = (fst run1, snd run1)"
    by (simp add: run1_def)
  have 2: "analyze_data_store ascii_lower self (snd run1) (ascii ''t2'') = (fst run2, snd run2)"
    by (simp add: run2_def)
  from analyze_data_deterministic [OF w 1 2]
  have "take (length h) (snd run1) = h \<and>
      read_analysis (snd run2) (fst run2) =
        (read_analysis (snd run1) (fst run1))\<lparr>analysis_time := ascii ''t2''\<rparr>"
    by blast
  then show ?thesis
    unfolding Let_def run2_def run1_def h_def self_def .
qed

end
